theory Spec2Isabelle
  imports Complex_Main
begin

section \<open>Float64 arithmetic\<close>

text \<open>
  The distances and the percentages of the notebooks are numpy float64 values. A float64 is
  modelled as the real number it denotes, and each arithmetic operation as the exact
  operation followed by \<open>f64_round\<close>, the IEEE 754 rounding to the nearest binary64 value
  with ties to the even significand. Gradual underflow is part of the model; overflow to
  infinity and NaN are not, and where the code can reach them the model says so.
\<close>

text \<open>The power \<open>2\<^sup>e\<close> for an integer \<open>e\<close>.\<close>

definition pow2 :: "int \<Rightarrow> real" where
  "pow2 e = (if 0 \<le> e then 2 ^ nat e else 1 / 2 ^ nat (- e))"

text \<open>The finite binary64 values: a significand below \<open>2\<^sup>5\<^sup>3\<close> in absolute value and an
  exponent from \<open>-1074\<close> to \<open>971\<close>.\<close>

definition is_f64 :: "real \<Rightarrow> bool" where
  "is_f64 x \<longleftrightarrow> (\<exists>m e. \<bar>m\<bar> < 2 ^ 53 \<and> - 1074 \<le> e \<and> e \<le> 971 \<and> x = of_int m * pow2 e)"

text \<open>Rounding of a real to the nearest integer, a tie going to the even one.\<close>

definition round_half_even :: "real \<Rightarrow> int" where
  "round_half_even y =
     (let f = \<lfloor>y\<rfloor>
      in if y - of_int f < 1 / 2 then f
         else if 1 / 2 < y - of_int f then f + 1
         else if even f then f else f + 1)"

text \<open>
  The exponent of the spacing of the binary64 values around \<open>x \<noteq> 0\<close>: 52 below the
  exponent of \<open>x\<close>, and \<open>-1074\<close> throughout the subnormal range.
\<close>

definition f64_ulp_exp :: "real \<Rightarrow> int" where
  "f64_ulp_exp x = max (\<lfloor>log 2 \<bar>x\<bar>\<rfloor> - 52) (- 1074)"

definition f64_round :: "real \<Rightarrow> real" where
  "f64_round x =
     (if x = 0 then 0
      else sgn x * (of_int (round_half_even (\<bar>x\<bar> / pow2 (f64_ulp_exp x))) * pow2 (f64_ulp_exp x)))"

section \<open>Rasters\<close>

text \<open>
  The notebooks \<open>07b\<close> and \<open>07d\<close> work on numpy float arrays in which NaN marks a
  missing pixel. A pixel is modelled as \<open>real option\<close>, \<open>None\<close> being NaN; a raster is
  the list of its rows; the time series \<open>WQ_TS_arr\<close> is the list of its per-date rasters.
  Pixel values are only ever copied or tested with \<open>np.isnan\<close> by the code modelled here,
  so no floating-point arithmetic on them is involved.
\<close>

type_synonym pixel = "real option"
type_synonym raster = "pixel list list"
type_synonym date = string

definition isnan :: "pixel \<Rightarrow> bool" where
  "isnan p = (p = None)"

text \<open>\<open>np.sum( np.isnan( r ) )\<close>: the number of NaN pixels of a raster.\<close>

definition n_nans :: "raster \<Rightarrow> nat" where
  "n_nans r = sum_list (map (\<lambda>row. length (filter isnan row)) r)"

text \<open>
  \<open>tmp = np.where( np.isnan(a) ); a[tmp] = b[tmp]\<close>: every NaN pixel of \<open>a\<close> takes the
  pixel of \<open>b\<close> at the same position (which may be NaN as well); the other pixels of \<open>a\<close>
  stay. Both are slices of one 3-D array, hence of one shape.
\<close>

definition fill_nans :: "raster \<Rightarrow> raster \<Rightarrow> raster" where
  "fill_nans a b = map2 (map2 (\<lambda>p q. if isnan p then q else p)) a b"

section \<open>Date deduplication (cell In[6] of 07b and 07d)\<close>

text \<open>
  The loop mutates \<open>WQ_TS_arr\<close> and \<open>rem_ind\<close> in place; the model passes both as a
  state. \<open>strL5_dates\<close> (\<open>strLS_dates\<close> in 07d) is not changed inside the loop.
\<close>

record dedup_state =
  WQ_TS_arr :: "raster list"
  rem_ind :: "bool list"

text \<open>
  One iteration of \<open>for ind in range(1,n_dates)\<close>.
  \<open>np.where( dates[:ind]==dates[ind] )[0]\<close> is the ascending list of the earlier
  indices holding the current date; \<open>dup_ind[0]\<close> is read only when that list is not
  empty. Assigning \<open>WQ_TS_arr[dup_ind] = WQ_TS_arr[ind]\<close> copies the pixels.
\<close>

definition dedup_step :: "date list \<Rightarrow> dedup_state \<Rightarrow> nat \<Rightarrow> dedup_state" where
  "dedup_step dates s ind =
    (let dup_inds = filter (\<lambda>i. dates ! i = dates ! ind) [0..<ind] in
     if length dup_inds \<noteq> 0 then
       (let dup_ind = hd dup_inds;
            s1 = s\<lparr>rem_ind := (rem_ind s)[ind := True]\<rparr>;
            arr = WQ_TS_arr s;
            ind_n_nans = n_nans (arr ! ind);
            dup_n_nans = n_nans (arr ! dup_ind)
        in if ind_n_nans = 0 then
             s1\<lparr>WQ_TS_arr := arr[dup_ind := arr ! ind]\<rparr>
           else if dup_n_nans \<noteq> 0 then
             (if dup_n_nans < ind_n_nans then
                s1\<lparr>WQ_TS_arr := arr[dup_ind := fill_nans (arr ! dup_ind) (arr ! ind)]\<rparr>
              else
                (let arr' = arr[ind := fill_nans (arr ! ind) (arr ! dup_ind)]
                 in s1\<lparr>WQ_TS_arr := arr'[dup_ind := arr' ! ind]\<rparr>))
           else s1)
     else s)"

text \<open>\<open>xs[ ~rem ]\<close>: boolean-mask indexing, keeping the entries whose flag is False.\<close>

definition select_not :: "bool list \<Rightarrow> 'a list \<Rightarrow> 'a list" where
  "select_not rem xs = map snd (filter (\<lambda>p. \<not> fst p) (zip rem xs))"

definition dedup_loop :: "date list \<Rightarrow> nat \<Rightarrow> dedup_state \<Rightarrow> dedup_state" where
  "dedup_loop dates n s = fold (\<lambda>ind s. dedup_step dates s ind) [1..<n] s"

text \<open>
  The whole cell, from the (date, raster) pairs to the pairs left after
  \<open>WQ_TS_arr = WQ_TS_arr[ ~rem_ind ]\<close> and \<open>strL5_dates = strL5_dates[ ~rem_ind ]\<close>.
\<close>

definition dedup :: "(date \<times> raster) list \<Rightarrow> (date \<times> raster) list" where
  "dedup xs =
    (let dates = map fst xs;
         n_dates = length dates;
         s = dedup_loop dates n_dates
               \<lparr>WQ_TS_arr = map snd xs, rem_ind = replicate n_dates False\<rparr>
     in zip (select_not (rem_ind s) dates) (select_not (rem_ind s) (WQ_TS_arr s)))"

section \<open>Water mask (function \<open>expand_mask\<close>, cell In[10] of 07b and 07d)\<close>

text \<open>
  A mask is a 2-D boolean array, True meaning land (to be excluded). The buffer distance
  \<open>npix\<close> is a Python float.
\<close>

type_synonym mask = "bool list list"

datatype py_error = ValueError

text \<open>
  \<open>pdist( [p, q] )\<close> of \<open>scipy.spatial.distance\<close> for two points of the plane, as its C
  routine computes the Euclidean distance in float64: \<open>d = u[i] - v[i]; s = s + d * d\<close> for
  both coordinates, starting from \<open>s = 0.0\<close> (adding \<open>0.0\<close> changes nothing), then \<open>sqrt(s)\<close>.
  Every operation rounds, the square root included.
\<close>

definition pdist :: "real \<times> real \<Rightarrow> real \<times> real \<Rightarrow> real" where
  "pdist p q =
     (let d0 = f64_round (fst p - fst q);
          d1 = f64_round (snd p - snd q);
          s = f64_round (f64_round (d0 * d0) + f64_round (d1 * d1))
      in f64_round (sqrt s))"

text \<open>\<open>struc[i,j] = True\<close>.\<close>

definition set_true :: "mask \<Rightarrow> nat \<Rightarrow> nat \<Rightarrow> mask" where
  "set_true struc i j = struc[i := (struc ! i)[j := True]]"

text \<open>The body of the inner loop, for one \<open>ii\<close> and one \<open>jj\<close>.\<close>

definition struc_step :: "real \<Rightarrow> int \<Rightarrow> nat \<Rightarrow> mask \<Rightarrow> nat \<Rightarrow> mask" where
  "struc_step npix nmid ii struc jj =
     (if pdist (of_int nmid, of_int nmid) (real ii, real jj) \<le> npix
      then set_true (set_true struc ii jj) jj ii
      else struc)"

text \<open>\<open>for ii in range(nmax): for jj in range(ii,nmax): ...\<close> on
  \<open>struc = np.zeros((nmax, nmax), dtype='bool')\<close>.\<close>

definition build_struc :: "real \<Rightarrow> int \<Rightarrow> nat \<Rightarrow> mask" where
  "build_struc npix nmid nmax =
     fold (\<lambda>ii struc. fold (\<lambda>jj struc. struc_step npix nmid ii struc jj) [ii..<nmax] struc)
       [0..<nmax] (replicate nmax (replicate nmax False))"

text \<open>
  Modelled from the spec: \<open>scipy.ndimage.binary_dilation(input, structure=struc)\<close> is
  library code outside the repository. With its defaults (one iteration, origin at the
  centre \<open>shape // 2\<close> of the structuring element, border value 0) it is the morphological
  dilation: an output pixel \<open>p\<close> is True exactly when some True element \<open>b\<close> of the structure
  has a True input pixel at \<open>p - (b - centre)\<close> inside the array. The output has the shape
  of the input.
\<close>

definition binary_dilation :: "mask \<Rightarrow> mask \<Rightarrow> mask" where
  "binary_dilation input struc =
     map (\<lambda>r. map (\<lambda>c.
         list_ex (\<lambda>ii. list_ex (\<lambda>jj.
             struc ! ii ! jj \<and>
             (let r' = int r - (int ii - int (length struc div 2));
                  c' = int c - (int jj - int (length (struc ! ii) div 2))
              in 0 \<le> r' \<and> r' < int (length input) \<and> 0 \<le> c' \<and>
                 c' < int (length (input ! nat r')) \<and> input ! nat r' ! nat c'))
           [0..<length (struc ! ii)]) [0..<length struc])
       [0..<length (input ! r)]) [0..<length input]"

text \<open>
  \<open>expand_mask(mask_arr, npix)\<close>. \<open>np.floor(npix)\<close> is a float holding an integer, and
  \<open>nmid*2 + 1\<close> is computed without rounding for every buffer below \<open>2\<^sup>5\<^sup>2\<close>;
  \<open>np.zeros\<close> raises ValueError on a negative dimension, which is the case for every
  negative \<open>npix\<close>.
\<close>

definition expand_mask :: "mask \<Rightarrow> real \<Rightarrow> py_error + mask" where
  "expand_mask mask_arr npix =
     (let nmid = \<lfloor>npix\<rfloor>;
          nmax = nmid * 2 + 1
      in if nmax < 0 then Inl ValueError
         else Inr (binary_dilation mask_arr (build_struc npix nmid (nat nmax))))"

text \<open>
  \<open>land_mask = ( WOFS_array<=water_mask_thr )\<close>. A pixel of the water-occurrence raster is a
  number or NaN (\<open>None\<close>); a comparison with NaN is False.
\<close>

definition le_thr :: "real option \<Rightarrow> real \<Rightarrow> bool" where
  "le_thr v thr = (case v of None \<Rightarrow> False | Some x \<Rightarrow> x \<le> thr)"

definition threshold_mask :: "real option list list \<Rightarrow> real \<Rightarrow> mask" where
  "threshold_mask WOFS_array water_mask_thr = map (map (\<lambda>v. le_thr v water_mask_thr)) WOFS_array"

text \<open>Cell In[10]: the thresholded mask, then expanded by \<open>water_mask_buffer\<close>.\<close>

definition make_land_mask :: "real option list list \<Rightarrow> real \<Rightarrow> real \<Rightarrow> py_error + mask" where
  "make_land_mask WOFS_array water_mask_thr water_mask_buffer =
     expand_mask (threshold_mask WOFS_array water_mask_thr) water_mask_buffer"

section \<open>Reprojection, masking and export (cells In[15] and In[16] of 07b and 07d)\<close>

text \<open>
  The two in-memory GDAL datasets: \<open>gdal_WQ_data\<close> holds the raster to warp, on the Landsat
  grid, and \<open>gdalgeo_WQ_data\<close> is the destination buffer on the grid of the water mask. Both
  are created once, before the loop, and written in every iteration.
\<close>

record gdal_state =
  gdal_WQ_data :: raster
  gdalgeo_WQ_data :: raster

text \<open>
  Modelled from the spec: \<open>gdal.ReprojectImage(src, dst, ...)\<close> is library code outside the
  repository. It writes the resampled value into the destination pixels it reaches
  and leaves every other destination pixel as it was. The resampling itself is a
  parameter: \<open>resample src r c\<close> is \<open>None\<close> when the warp of \<open>src\<close> does not touch the
  destination pixel \<open>(r, c)\<close>, and \<open>Some v\<close> when it writes \<open>v\<close> there (\<open>v\<close> may be NaN).
\<close>

type_synonym resampler = "raster \<Rightarrow> nat \<Rightarrow> nat \<Rightarrow> pixel option"

definition ReprojectImage :: "resampler \<Rightarrow> raster \<Rightarrow> raster \<Rightarrow> raster" where
  "ReprojectImage resample src dst =
     map (\<lambda>r. map (\<lambda>c. case resample src r c of None \<Rightarrow> dst ! r ! c | Some v \<Rightarrow> v)
                 [0..<length (dst ! r)])
       [0..<length dst]"

text \<open>\<open>np.ones((WOFS_dx,WOFS_dy))*np.nan\<close>.\<close>

definition nan_array :: "nat \<Rightarrow> nat \<Rightarrow> raster" where
  "nan_array dx dy = replicate dx (replicate dy None)"

text \<open>\<open>WQ_array[land_mask] = np.nan\<close>; the mask and the reprojected raster have the shape
  of \<open>WOFS_array\<close>.\<close>

definition mask_out :: "mask \<Rightarrow> raster \<Rightarrow> raster" where
  "mask_out land_mask WQ_array = map2 (map2 (\<lambda>l p. if l then None else p)) land_mask WQ_array"

text \<open>\<open>np.sum( ~land_mask )\<close> and \<open>np.sum( ~np.isnan(WQ_array) )\<close>.\<close>

definition n_water_pix :: "mask \<Rightarrow> nat" where
  "n_water_pix land_mask = sum_list (map (\<lambda>row. length (filter (\<lambda>l. \<not> l) row)) land_mask)"

definition n_valid_pix :: "raster \<Rightarrow> nat" where
  "n_valid_pix WQ_array = sum_list (map (\<lambda>row. length (filter (\<lambda>p. \<not> isnan p) row)) WQ_array)"

text \<open>
  The first half of the loop body, the same text in 07b and 07d: write the date's raster
  into the source dataset, overwrite the destination buffer with NaN, warp, read the
  result back and mask the land pixels out.
\<close>

definition reproject_masked ::
  "resampler \<Rightarrow> mask \<Rightarrow> nat \<Rightarrow> nat \<Rightarrow> raster \<Rightarrow> gdal_state \<Rightarrow> raster \<times> gdal_state" where
  "reproject_masked resample land_mask WOFS_dx WOFS_dy WQ g =
     (let g1 = g\<lparr>gdal_WQ_data := WQ\<rparr>;
          g2 = g1\<lparr>gdalgeo_WQ_data := nan_array WOFS_dx WOFS_dy\<rparr>;
          g3 = g2\<lparr>gdalgeo_WQ_data :=
                   ReprojectImage resample (gdal_WQ_data g2) (gdalgeo_WQ_data g2)\<rparr>;
          WQ_array = mask_out land_mask (gdalgeo_WQ_data g3)
      in (WQ_array, g3))"

text \<open>
  07b: \<open>if (100.0*n_valid_pix/n_water_pix)>=min_valid_pix_thr\<close>. The two counts are numpy
  integers, converted to float64 by the product and the quotient, which both round. With
  no water pixel numpy divides by zero without raising: the quotient is NaN when
  \<open>n_valid_pix\<close> is 0 and the comparison is False, and it is infinite otherwise and the
  comparison is True. \<open>min_valid_pix_thr\<close> is a Python float.
\<close>

definition enough_valid_07b :: "mask \<Rightarrow> raster \<Rightarrow> real \<Rightarrow> bool" where
  "enough_valid_07b land_mask WQ_array min_valid_pix_thr =
     (let n_water_pix = n_water_pix land_mask;
          n_valid_pix = n_valid_pix WQ_array
      in if n_water_pix = 0 then n_valid_pix \<noteq> 0
         else f64_round (f64_round (100 * f64_round (real n_valid_pix))
                           / f64_round (real n_water_pix))
                \<ge> min_valid_pix_thr)"

text \<open>
  07d: \<open>pix_thr = np.sum( ~land_mask ) * min_valid_pix_thr / 100.0\<close>, computed once, and
  \<open>if np.sum( ~np.isnan(WQ_array) )>=pix_thr\<close>; the product and the quotient round, and the
  comparison converts the integer count to float64. Should the product overflow, the
  infinite \<open>pix_thr\<close> compares as the large finite value of the model does.
\<close>

definition enough_valid_07d :: "mask \<Rightarrow> raster \<Rightarrow> real \<Rightarrow> bool" where
  "enough_valid_07d land_mask WQ_array min_valid_pix_thr =
     (let pix_thr = f64_round (f64_round (f64_round (real (n_water_pix land_mask))
                                            * min_valid_pix_thr) / 100)
      in f64_round (real (n_valid_pix WQ_array)) \<ge> pix_thr)"

text \<open>
  The loop of 07b. What it writes for a retained date (the PNG of \<open>WQ_array\<close>, the JSON
  record and the entry of \<open>contents_json_list\<close>) is kept as one entry of \<open>saved\<close>: the date
  and the masked raster. File names, the constant fields and the NaN-ignoring statistics
  of the JSON record are left out.
\<close>

record state_07b =
  gdal_07b :: gdal_state
  saved :: "(date \<times> raster) list"

definition step_07b ::
  "resampler \<Rightarrow> mask \<Rightarrow> nat \<Rightarrow> nat \<Rightarrow> real \<Rightarrow> date list \<Rightarrow> raster list \<Rightarrow>
     state_07b \<Rightarrow> nat \<Rightarrow> state_07b" where
  "step_07b resample land_mask WOFS_dx WOFS_dy min_valid_pix_thr dates WQ_TS s dateind =
     (let (WQ_array, g) =
            reproject_masked resample land_mask WOFS_dx WOFS_dy (WQ_TS ! dateind) (gdal_07b s);
          s1 = s\<lparr>gdal_07b := g\<rparr>
      in if enough_valid_07b land_mask WQ_array min_valid_pix_thr
         then s1\<lparr>saved := saved s1 @ [(dates ! dateind, WQ_array)]\<rparr>
         else s1)"

definition loop_07b ::
  "resampler \<Rightarrow> mask \<Rightarrow> nat \<Rightarrow> nat \<Rightarrow> real \<Rightarrow> date list \<Rightarrow> raster list \<Rightarrow>
     gdal_state \<Rightarrow> state_07b" where
  "loop_07b resample land_mask WOFS_dx WOFS_dy min_valid_pix_thr dates WQ_TS g =
     fold (\<lambda>dateind s.
             step_07b resample land_mask WOFS_dx WOFS_dy min_valid_pix_thr dates WQ_TS s dateind)
       [0..<length dates] \<lparr>gdal_07b = g, saved = []\<rparr>"

text \<open>
  The loop of 07d fills \<open>valid_dates\<close> and the 3-D array \<open>WQ_res\<close>, both allocated before
  the loop (\<open>WQ_res\<close> all NaN, \<open>valid_dates\<close> all False). The per-date statistics and flags
  it also stores are left out.
\<close>

record state_07d =
  gdal_07d :: gdal_state
  WQ_res :: "raster list"
  valid_dates :: "bool list"

definition step_07d ::
  "resampler \<Rightarrow> mask \<Rightarrow> nat \<Rightarrow> nat \<Rightarrow> real \<Rightarrow> raster list \<Rightarrow> state_07d \<Rightarrow> nat \<Rightarrow> state_07d" where
  "step_07d resample land_mask WOFS_dx WOFS_dy min_valid_pix_thr WQ_TS s dateind =
     (let (WQ_array, g) =
            reproject_masked resample land_mask WOFS_dx WOFS_dy (WQ_TS ! dateind) (gdal_07d s);
          s1 = s\<lparr>gdal_07d := g\<rparr>
      in if enough_valid_07d land_mask WQ_array min_valid_pix_thr
         then s1\<lparr>valid_dates := (valid_dates s1)[dateind := True],
                 WQ_res := (WQ_res s1)[dateind := WQ_array]\<rparr>
         else s1)"

definition loop_07d ::
  "resampler \<Rightarrow> mask \<Rightarrow> nat \<Rightarrow> nat \<Rightarrow> real \<Rightarrow> nat \<Rightarrow> raster list \<Rightarrow> gdal_state \<Rightarrow> state_07d" where
  "loop_07d resample land_mask WOFS_dx WOFS_dy min_valid_pix_thr n_dates WQ_TS g =
     fold (\<lambda>dateind s.
             step_07d resample land_mask WOFS_dx WOFS_dy min_valid_pix_thr WQ_TS s dateind)
       [0..<n_dates]
       \<lparr>gdal_07d = g, WQ_res = replicate n_dates (nan_array WOFS_dx WOFS_dy),
        valid_dates = replicate n_dates False\<rparr>"

text \<open>\<open>xs[valid]\<close>: boolean-mask indexing, keeping the entries whose flag is True.\<close>

definition select :: "bool list \<Rightarrow> 'a list \<Rightarrow> 'a list" where
  "select valid xs = map snd (filter fst (zip valid xs))"

text \<open>
  Cell In[16] of 07d. The state it can change: the arrays narrowed to the valid dates and
  the files on disk. A netCDF file is kept as its name, its time axis and its data; the
  coordinate vectors and the attributes are left out.
\<close>

record nc_file =
  nc_name :: string
  nc_time :: "date list"
  nc_data :: "raster list"

record export_state =
  exp_WQ_res :: "raster list"
  exp_LS_dates :: "date list"
  files :: "nc_file list"

definition save_results :: "bool list \<Rightarrow> string \<Rightarrow> export_state \<Rightarrow> export_state" where
  "save_results valid f_name st =
     (if length (filter (\<lambda>v. v) valid) > 0 then
        (let res = select valid (exp_WQ_res st);
             dates = select valid (exp_LS_dates st)
         in st\<lparr>exp_WQ_res := res, exp_LS_dates := dates,
               files := files st @ [\<lparr>nc_name = f_name, nc_time = dates, nc_data = res\<rparr>]\<rparr>)
      else st)"

text \<open>Cells In[15] and In[16] of 07d in sequence, on a disk holding \<open>files0\<close>.\<close>

definition archive_export ::
  "resampler \<Rightarrow> mask \<Rightarrow> nat \<Rightarrow> nat \<Rightarrow> real \<Rightarrow> date list \<Rightarrow> raster list \<Rightarrow> gdal_state \<Rightarrow>
     string \<Rightarrow> nc_file list \<Rightarrow> export_state" where
  "archive_export resample land_mask WOFS_dx WOFS_dy min_valid_pix_thr LS_dates WQ_TS g f_name files0 =
     (let s = loop_07d resample land_mask WOFS_dx WOFS_dy min_valid_pix_thr (length LS_dates) WQ_TS g
      in save_results (valid_dates s) f_name
           \<lparr>exp_WQ_res = WQ_res s, exp_LS_dates = LS_dates, files = files0\<rparr>)"

section \<open>The resolution rule and closed forms of the deduplication\<close>

text \<open>
  What one iteration of the loop leaves at \<open>dup_ind\<close>, as a function of the raster \<open>e\<close>
  held there (the earlier occurrence) and of the raster \<open>l\<close> at \<open>ind\<close> (the later one), read
  off the four branches of the loop body: the test \<open>dup_n_nans<ind_n_nans\<close> sends equal
  counts to the branch that fills the later raster.
\<close>

definition resolve_pair :: "raster \<Rightarrow> raster \<Rightarrow> raster" where
  "resolve_pair e l =
    (if n_nans l = 0 then l
     else if n_nans e = 0 then e
     else if n_nans l \<le> n_nans e then fill_nans l e
     else fill_nans e l)"

text \<open>
  The rule in the words of the specification: the later raster is the base only when it
  has strictly fewer missing pixels, and equal counts fall to the last case.
\<close>

definition resolve_spec :: "raster \<Rightarrow> raster \<Rightarrow> raster" where
  "resolve_spec e l =
    (if n_nans l = 0 then l
     else if n_nans e = 0 then e
     else if n_nans l < n_nans e then fill_nans l e
     else fill_nans e l)"

text \<open>
  Deduplication as a scan: the first entry of a date stays at its place, takes up the later
  entries of its date one after the other through the rule \<open>res\<close>, and those entries are
  dropped.
\<close>

fun dedup_rule :: "(raster \<Rightarrow> raster \<Rightarrow> raster) \<Rightarrow> (date \<times> raster) list \<Rightarrow> (date \<times> raster) list" where
  "dedup_rule res [] = []"
| "dedup_rule res (x # xs) =
     (fst x, foldl res (snd x) (map snd (filter (\<lambda>p. fst p = fst x) xs)))
       # dedup_rule res (filter (\<lambda>p. fst p \<noteq> fst x) xs)"

text \<open>Vocabulary of the loop invariant: an index whose date did not occur before it, and
  the raster a first occurrence \<open>k\<close> holds once the indices below \<open>m\<close> are processed.\<close>

definition first_seen :: "date list \<Rightarrow> nat \<Rightarrow> bool" where
  "first_seen dates k = (filter (\<lambda>i. dates ! i = dates ! k) [0..<k] = [])"

definition merged :: "date list \<Rightarrow> raster list \<Rightarrow> nat \<Rightarrow> nat \<Rightarrow> raster" where
  "merged dates rs k m =
     foldl resolve_pair (rs ! k) (map ((!) rs) (filter (\<lambda>j. dates ! j = dates ! k) [Suc k..<m]))"

definition dedup_inv :: "date list \<Rightarrow> raster list \<Rightarrow> nat \<Rightarrow> dedup_state \<Rightarrow> bool" where
  "dedup_inv dates rs m s \<longleftrightarrow>
     length (WQ_TS_arr s) = length dates \<and> length (rem_ind s) = length dates \<and>
     (\<forall>k<length dates. rem_ind s ! k = (k < m \<and> \<not> first_seen dates k)) \<and>
     (\<forall>k<length dates. m \<le> k \<longrightarrow> WQ_TS_arr s ! k = rs ! k) \<and>
     (\<forall>k<length dates. first_seen dates k \<longrightarrow> WQ_TS_arr s ! k = merged dates rs k m)"

definition index_form :: "date set \<Rightarrow> (date \<times> raster) list \<Rightarrow> (date \<times> raster) list" where
  "index_form seen xs =
     map (\<lambda>k. (map fst xs ! k, merged (map fst xs) (map snd xs) k (length xs)))
       (filter (\<lambda>k. map fst xs ! k \<notin> seen \<and> first_seen (map fst xs) k) [0..<length xs])"

fun dedup_seen :: "date set \<Rightarrow> (date \<times> raster) list \<Rightarrow> (date \<times> raster) list" where
  "dedup_seen seen [] = []"
| "dedup_seen seen (x # xs) =
     (if fst x \<in> seen then []
      else [(fst x, foldl resolve_pair (snd x) (map snd (filter (\<lambda>p. fst p = fst x) xs)))])
     @ dedup_seen (insert (fst x) seen) xs"

section \<open>Vocabulary for the structuring element\<close>

text \<open>The test of the inner loop at the index pair \<open>(i, j)\<close>, and a boolean array of
  size \<open>n \<times> n\<close> that holds a given predicate on its indices.\<close>

definition in_disk :: "real \<Rightarrow> int \<Rightarrow> nat \<Rightarrow> nat \<Rightarrow> bool" where
  "in_disk npix nmid i j \<longleftrightarrow> pdist (of_int nmid, of_int nmid) (real i, real j) \<le> npix"

definition represents :: "nat \<Rightarrow> mask \<Rightarrow> (nat \<Rightarrow> nat \<Rightarrow> bool) \<Rightarrow> bool" where
  "represents n S Q \<longleftrightarrow> length S = n \<and> (\<forall>a<n. length (S ! a) = n \<and> (\<forall>b<n. S ! a ! b = Q a b))"

text \<open>
  The test of the kernel in terms of the offset \<open>(dx, dy)\<close> from its centre: the offset lies
  in the box of half-width \<open>floor(npix)\<close> and its float64 distance is at most \<open>npix\<close>. And
  the float64 length of an integer offset with exact squares: the rounded square root of
  \<open>dx\<^sup>2 + dy\<^sup>2\<close>.
\<close>

definition in_kernel :: "real \<Rightarrow> int \<Rightarrow> int \<Rightarrow> bool" where
  "in_kernel npix dx dy \<longleftrightarrow>
     \<bar>dx\<bar> \<le> \<lfloor>npix\<rfloor> \<and> \<bar>dy\<bar> \<le> \<lfloor>npix\<rfloor> \<and> pdist (0, 0) (of_int dx, of_int dy) \<le> npix"

definition f64_dist :: "int \<Rightarrow> int \<Rightarrow> real" where
  "f64_dist dx dy = f64_round (sqrt (of_int (dx\<^sup>2 + dy\<^sup>2)))"

section \<open>Vocabulary for the reprojection loop\<close>

text \<open>
  What an iteration computes for a raster \<open>WQ\<close> when the destination buffer is all NaN
  before the warp; the number of water pixels (mask False) that hold a value in a raster
  \<open>W\<close> on the grid of the mask; and that number as a percentage of the water pixels.
\<close>

definition fresh_result :: "resampler \<Rightarrow> mask \<Rightarrow> nat \<Rightarrow> nat \<Rightarrow> raster \<Rightarrow> raster" where
  "fresh_result resample land_mask dx dy WQ =
     mask_out land_mask (ReprojectImage resample WQ (nan_array dx dy))"

definition n_valid_water :: "mask \<Rightarrow> raster \<Rightarrow> nat" where
  "n_valid_water land_mask W =
     sum_list (map2 (\<lambda>lrow wrow. length (filter (\<lambda>(l, p). \<not> l \<and> \<not> isnan p) (zip lrow wrow)))
                land_mask W)"

definition valid_percentage :: "mask \<Rightarrow> raster \<Rightarrow> real" where
  "valid_percentage land_mask W =
     100 * real (n_valid_water land_mask W) / real (n_water_pix land_mask)"

text \<open>The invariant of the loop of 07d once the dates below \<open>k\<close> are processed.\<close>

definition inv_07d ::
  "resampler \<Rightarrow> mask \<Rightarrow> nat \<Rightarrow> nat \<Rightarrow> real \<Rightarrow> nat \<Rightarrow> raster list \<Rightarrow> nat \<Rightarrow> state_07d \<Rightarrow> bool" where
  "inv_07d resample land_mask dx dy thr n WQ_TS k s \<longleftrightarrow>
     length (valid_dates s) = n \<and> length (WQ_res s) = n \<and>
     (\<forall>i<n. valid_dates s ! i =
              (i < k \<and> enough_valid_07d land_mask (fresh_result resample land_mask dx dy (WQ_TS ! i)) thr) \<and>
            WQ_res s ! i =
              (if i < k \<and> enough_valid_07d land_mask (fresh_result resample land_mask dx dy (WQ_TS ! i)) thr
               then fresh_result resample land_mask dx dy (WQ_TS ! i) else nan_array dx dy))"

section \<open>Float64 rounding never crosses a float64 value\<close>

lemma pow2_powr: "pow2 e = 2 powr (of_int e)"
proof (cases "0 \<le> e")
  case True
  then have "2 powr (of_int e) = (2::real) powr (real (nat e))" by simp
  also have "\<dots> = 2 ^ nat e" by (simp add: powr_realpow)
  finally show ?thesis using True by (simp add: pow2_def)
next
  case False
  then have "(2::real) powr (of_int e) = 2 powr (- real (nat (- e)))" by simp
  also have "\<dots> = 1 / 2 ^ nat (- e)" by (simp add: powr_minus powr_realpow field_simps)
  finally show ?thesis using False by (simp add: pow2_def)
qed

lemma pow2_pos [simp]: "0 < pow2 e"
  by (simp add: pow2_powr)

lemma pow2_nonneg [simp]: "0 \<le> pow2 e"
  using pow2_pos [of e] by (rule less_imp_le)

lemma pow2_abs [simp]: "\<bar>pow2 e\<bar> = pow2 e"
  by simp

lemma pow2_add: "pow2 (a + b) = pow2 a * pow2 b"
  by (simp add: pow2_powr powr_add)

lemma pow2_mono: "a \<le> b \<Longrightarrow> pow2 a \<le> pow2 b"
  by (simp add: pow2_powr)

lemma pow2_strict_mono: "a < b \<Longrightarrow> pow2 a < pow2 b"
  by (simp add: pow2_powr)

lemma pow2_nat: "0 \<le> e \<Longrightarrow> pow2 e = of_int (2 ^ nat e)"
  by (simp add: pow2_def)

lemma pow2_0 [simp]: "pow2 0 = 1"
  by (simp add: pow2_def)

lemma pow2_numeral: "pow2 (numeral n) = 2 ^ numeral n"
  by (simp add: pow2_def)

lemma pow2_neg_numeral: "pow2 (- numeral n) = 1 / 2 ^ numeral n"
  by (simp add: pow2_def)

lemma pow2_diff: "pow2 (a - b) = pow2 a / pow2 b"
  by (simp add: pow2_powr powr_diff)

lemma floor_log2_bounds:
  assumes "0 < x"
  shows "pow2 \<lfloor>log 2 x\<rfloor> \<le> x" "x < pow2 (\<lfloor>log 2 x\<rfloor> + 1)"
  using floor_log_eq_powr_iff [of x 2 "\<lfloor>log 2 x\<rfloor>"] assms by (simp_all add: pow2_powr)

lemma floor_log2_eq:
  "0 < x \<Longrightarrow> pow2 k \<le> x \<Longrightarrow> x < pow2 (k + 1) \<Longrightarrow> \<lfloor>log 2 x\<rfloor> = k"
  using floor_log_eq_powr_iff [of x 2 k] by (simp add: pow2_powr)

lemma round_half_even_bounds: "\<lfloor>y\<rfloor> \<le> round_half_even y" "round_half_even y \<le> \<lceil>y\<rceil>"
proof -
  show "\<lfloor>y\<rfloor> \<le> round_half_even y" by (simp add: round_half_even_def Let_def)
  show "round_half_even y \<le> \<lceil>y\<rceil>"
  proof (cases "y - of_int \<lfloor>y\<rfloor> < 1 / 2")
    case True
    then show ?thesis using floor_le_ceiling [of y] by (simp add: round_half_even_def Let_def)
  next
    case False
    then have "of_int \<lfloor>y\<rfloor> < y" by simp
    then have "\<lfloor>y\<rfloor> < \<lceil>y\<rceil>" by (simp only: less_ceiling_iff)
    then show ?thesis by (simp add: round_half_even_def Let_def)
  qed
qed

lemma round_half_even_int [simp]: "round_half_even (of_int z) = z"
  by (simp add: round_half_even_def)

lemma round_half_even_near:
  assumes "of_int m - 1 / 2 < y" "y < of_int m + 1 / 2"
  shows "round_half_even y = m"
proof (cases "of_int m \<le> y")
  case True
  have "\<lfloor>y\<rfloor> = m" using True assms by (intro floor_unique) simp_all
  then show ?thesis using assms by (simp add: round_half_even_def Let_def)
next
  case False
  have "\<lfloor>y\<rfloor> = m - 1" using False assms by (intro floor_unique) simp_all
  then show ?thesis using assms by (simp add: round_half_even_def Let_def)
qed

lemma round_half_even_tie:
  "y = of_int m + 1 / 2 \<Longrightarrow> round_half_even y = (if even m then m else m + 1)"
proof -
  assume y: "y = of_int m + 1 / 2"
  have "\<lfloor>y\<rfloor> = m" unfolding y by (simp add: floor_eq_iff)
  then show ?thesis using y by (simp add: round_half_even_def Let_def)
qed

lemma is_f64_minus: "is_f64 r \<Longrightarrow> is_f64 (- r)"
proof -
  assume "is_f64 r"
  then obtain m e where "\<bar>m\<bar> < 2 ^ 53" "- 1074 \<le> e" "e \<le> 971" "r = of_int m * pow2 e"
    unfolding is_f64_def by blast
  then have "\<bar>- m\<bar> < 2 ^ 53 \<and> - 1074 \<le> e \<and> e \<le> 971 \<and> - r = of_int (- m) * pow2 e"
    by simp
  then show ?thesis unfolding is_f64_def by blast
qed

lemma is_f64_int: "\<bar>z\<bar> < 2 ^ 53 \<Longrightarrow> is_f64 (of_int z)"
  unfolding is_f64_def by (rule exI [of _ z], rule exI [of _ 0]) simp

lemma f64_multiple:
  assumes r: "is_f64 r" and e: "- 1074 \<le> e" and big: "e = - 1074 \<or> pow2 (e + 52) \<le> \<bar>r\<bar>"
  shows "\<exists>z. r = of_int z * pow2 e"
proof -
  obtain m j where m: "\<bar>m\<bar> < 2 ^ 53" and j: "- 1074 \<le> j" and rm: "r = of_int m * pow2 j"
    using r unfolding is_f64_def by blast
  show ?thesis
  proof (cases "e \<le> j")
    case True
    have "pow2 j = pow2 (j - e) * pow2 e" using pow2_add [of "j - e" e] by simp
    also have "pow2 (j - e) = of_int (2 ^ nat (j - e))" using True by (simp add: pow2_nat)
    finally have "r = of_int (m * 2 ^ nat (j - e)) * pow2 e" by (simp add: rm)
    then show ?thesis by blast
  next
    case False
    then have je: "j + 53 \<le> e + 52" by simp
    have ne: "e \<noteq> - 1074" using False j by simp
    have "real_of_int \<bar>m\<bar> < 2 ^ 53" using m by (metis of_int_less_numeral_power_cancel_iff)
    then have "\<bar>r\<bar> < 2 ^ 53 * pow2 j"
      unfolding rm abs_mult pow2_abs of_int_abs [symmetric] by (intro mult_strict_right_mono) simp_all
    also have "(2::real) ^ 53 * pow2 j = pow2 (53 + j)"
      unfolding pow2_add [of 53 j] by (simp add: pow2_numeral)
    also have "\<dots> \<le> pow2 (e + 52)" using je by (intro pow2_mono) simp
    finally have "\<bar>r\<bar> < pow2 (e + 52)" .
    then show ?thesis using big ne by simp
  qed
qed

lemma f64_ulp_exp_pos:
  assumes "0 < x"
  shows "- 1074 \<le> f64_ulp_exp x"
    and "f64_ulp_exp x = - 1074 \<or> pow2 (f64_ulp_exp x + 52) \<le> x"
proof -
  show "- 1074 \<le> f64_ulp_exp x" by (simp add: f64_ulp_exp_def)
  have "pow2 \<lfloor>log 2 x\<rfloor> \<le> x" by (rule floor_log2_bounds(1) [OF assms])
  then show "f64_ulp_exp x = - 1074 \<or> pow2 (f64_ulp_exp x + 52) \<le> x"
    using assms by (auto simp: f64_ulp_exp_def max_def)
qed

lemma f64_round_pos:
  "0 < x \<Longrightarrow> f64_round x = of_int (round_half_even (x / pow2 (f64_ulp_exp x))) * pow2 (f64_ulp_exp x)"
  by (simp add: f64_round_def)

lemma f64_round_minus: "f64_round (- x) = - f64_round x"
  by (simp add: f64_round_def f64_ulp_exp_def sgn_minus)

lemma f64_round_nonneg: "0 \<le> x \<Longrightarrow> 0 \<le> f64_round x"
proof (cases "x = 0")
  case True
  then show ?thesis by (simp add: f64_round_def)
next
  case False
  assume "0 \<le> x"
  then have x: "0 < x" using False by simp
  have "0 \<le> x / pow2 (f64_ulp_exp x)" using x by (intro divide_nonneg_pos) simp_all
  then have "0 \<le> \<lfloor>x / pow2 (f64_ulp_exp x)\<rfloor>" by simp
  then have "0 \<le> round_half_even (x / pow2 (f64_ulp_exp x))"
    using round_half_even_bounds(1) [of "x / pow2 (f64_ulp_exp x)"] by linarith
  then show ?thesis by (simp add: f64_round_pos [OF x])
qed

lemma f64_round_lower_pos:
  assumes x: "0 < x" and r: "is_f64 r" and le: "r \<le> x"
  shows "r \<le> f64_round x"
proof (cases "0 < r")
  case False
  then show ?thesis using f64_round_nonneg [of x] x by simp
next
  case True
  define e where "e = f64_ulp_exp x"
  define y where "y = x / pow2 e"
  have fr: "f64_round x = of_int (round_half_even y) * pow2 e"
    by (simp add: f64_round_pos [OF x] e_def y_def)
  note ex = f64_ulp_exp_pos [OF x, folded e_def]
  show ?thesis
  proof (cases "e = - 1074 \<or> pow2 (e + 52) \<le> r")
    case A: True
    then obtain z where z: "r = of_int z * pow2 e"
      using f64_multiple [OF r ex(1)] True by auto
    have "of_int z \<le> y" using le by (simp add: z y_def pos_le_divide_eq)
    then have "z \<le> \<lfloor>y\<rfloor>" by (simp add: le_floor_iff)
    then have "z \<le> round_half_even y" using round_half_even_bounds(1) [of y] by linarith
    then have "real_of_int z \<le> of_int (round_half_even y)" by simp
    then show ?thesis unfolding fr z by (intro mult_right_mono) simp_all
  next
    case B: False
    then have big: "pow2 (e + 52) \<le> x" and small: "r < pow2 (e + 52)" using ex(2) by auto
    have "pow2 (e + 52) = of_int (2 ^ 52) * pow2 e"
      unfolding pow2_add [of e 52] by (simp add: pow2_numeral)
    then have "of_int (2 ^ 52) \<le> y" using big by (simp add: y_def pos_le_divide_eq)
    then have "2 ^ 52 \<le> \<lfloor>y\<rfloor>" by (simp only: le_floor_iff)
    then have "2 ^ 52 \<le> round_half_even y" using round_half_even_bounds(1) [of y] by linarith
    then have "real_of_int (2 ^ 52) \<le> of_int (round_half_even y)" by (simp only: of_int_le_iff)
    then have "of_int (2 ^ 52) * pow2 e \<le> f64_round x"
      unfolding fr by (intro mult_right_mono) simp_all
    then show ?thesis using small \<open>pow2 (e + 52) = of_int (2 ^ 52) * pow2 e\<close> by linarith
  qed
qed

lemma f64_round_upper_pos:
  assumes x: "0 < x" and r: "is_f64 r" and le: "x \<le> r"
  shows "f64_round x \<le> r"
proof -
  define e where "e = f64_ulp_exp x"
  define y where "y = x / pow2 e"
  have fr: "f64_round x = of_int (round_half_even y) * pow2 e"
    by (simp add: f64_round_pos [OF x] e_def y_def)
  note ex = f64_ulp_exp_pos [OF x, folded e_def]
  have "e = - 1074 \<or> pow2 (e + 52) \<le> \<bar>r\<bar>" using ex(2) le x by auto
  then obtain z where z: "r = of_int z * pow2 e"
    using f64_multiple [OF r ex(1)] by auto
  have "y \<le> of_int z" using le by (simp add: z y_def pos_divide_le_eq)
  then have "\<lceil>y\<rceil> \<le> z" by (simp add: ceiling_le_iff)
  then have "round_half_even y \<le> z" using round_half_even_bounds(2) [of y] by linarith
  then have "real_of_int (round_half_even y) \<le> of_int z" by simp
  then show ?thesis unfolding fr z by (intro mult_right_mono) simp_all
qed

lemma f64_round_lower: "is_f64 r \<Longrightarrow> r \<le> x \<Longrightarrow> r \<le> f64_round x"
proof -
  assume r: "is_f64 r" and le: "r \<le> x"
  consider "0 < x" | "x = 0" | "x < 0" by linarith
  then show ?thesis
  proof cases
    case 1
    then show ?thesis using r le by (rule f64_round_lower_pos)
  next
    case 2
    then show ?thesis using le by (simp add: f64_round_def)
  next
    case 3
    have "f64_round (- x) \<le> - r"
      using 3 le by (intro f64_round_upper_pos is_f64_minus r) simp_all
    then show ?thesis by (simp add: f64_round_minus)
  qed
qed

lemma f64_round_upper: "is_f64 r \<Longrightarrow> x \<le> r \<Longrightarrow> f64_round x \<le> r"
proof -
  assume r: "is_f64 r" and le: "x \<le> r"
  have "- r \<le> f64_round (- x)" using le by (intro f64_round_lower is_f64_minus r) simp
  then show ?thesis by (simp add: f64_round_minus)
qed

lemma f64_round_id: "is_f64 x \<Longrightarrow> f64_round x = x"
  using f64_round_lower [of x x] f64_round_upper [of x x] by simp

lemma f64_round_int: "\<bar>z\<bar> < 2 ^ 53 \<Longrightarrow> f64_round (of_int z) = of_int z"
  by (rule f64_round_id [OF is_f64_int])

lemma f64_round_eval:
  assumes "0 < x" "pow2 k \<le> x" "x < pow2 (k + 1)" "- 1022 \<le> k"
    and "round_half_even (x / pow2 (k - 52)) = m"
  shows "f64_round x = of_int m * pow2 (k - 52)"
proof -
  have "\<lfloor>log 2 x\<rfloor> = k" using assms(1-3) by (rule floor_log2_eq)
  then have "f64_ulp_exp x = k - 52" using assms(1,4) by (simp add: f64_ulp_exp_def)
  then show ?thesis using assms(1,5) by (simp add: f64_round_pos)
qed

section \<open>Date deduplication: the loop computes the scan\<close>

lemma select_not_nth:
  "length rem = length ys \<Longrightarrow>
   select_not rem ys = map ((!) ys) (filter (\<lambda>k. \<not> rem ! k) [0..<length ys])"
proof (induction ys arbitrary: rem rule: rev_induct)
  case Nil
  then show ?case by (simp add: select_not_def)
next
  case (snoc y ys)
  then obtain r rem' where rem: "rem = rem' @ [r]" and len: "length rem' = length ys"
    by (cases rem rule: rev_cases) auto
  have ih: "select_not rem' ys = map ((!) ys) (filter (\<lambda>k. \<not> rem' ! k) [0..<length ys])"
    using snoc.IH [OF len] .
  have f: "filter (\<lambda>k. \<not> (rem' @ [r]) ! k) [0..<length ys] = filter (\<lambda>k. \<not> rem' ! k) [0..<length ys]"
    by (rule filter_cong) (auto simp: nth_append len)
  have m: "map ((!) (ys @ [y])) (filter (\<lambda>k. \<not> rem' ! k) [0..<length ys])
         = map ((!) ys) (filter (\<lambda>k. \<not> rem' ! k) [0..<length ys])"
    by (rule map_cong) (auto simp: nth_append)
  have last: "(rem' @ [r]) ! length ys = r" "(ys @ [y]) ! length ys = y"
    using len by (auto simp: nth_append)
  have lhs: "select_not rem (ys @ [y]) = select_not rem' ys @ (if r then [] else [y])"
    by (simp add: rem select_not_def len)
  have rhs: "map ((!) (ys @ [y])) (filter (\<lambda>k. \<not> rem ! k) [0..<length (ys @ [y])])
           = map ((!) ys) (filter (\<lambda>k. \<not> rem' ! k) [0..<length ys]) @ (if r then [] else [y])"
    unfolding rem by (simp only: length_append_singleton upt_Suc_append le0 filter_append map_append f m)
       (simp add: last)
  show ?case
    unfolding lhs rhs ih ..
qed

lemma first_seen_iff: "first_seen dates k \<longleftrightarrow> (\<forall>i<k. dates ! i \<noteq> dates ! k)"
  by (auto simp: first_seen_def filter_empty_conv)

lemma hd_dup_inds:
  assumes "\<not> first_seen dates m"
  defines "d \<equiv> hd (filter (\<lambda>i. dates ! i = dates ! m) [0..<m])"
  shows "d < m" "dates ! d = dates ! m" "first_seen dates d"
proof -
  let ?f = "filter (\<lambda>i. dates ! i = dates ! m) [0..<m]"
  have ne: "?f \<noteq> []" using assms(1) by (simp add: first_seen_def)
  then obtain ys where f: "?f = d # ys" unfolding d_def by (cases ?f) auto
  have "d \<in> set ?f" by (simp add: f del: set_filter)
  then show "d < m" "dates ! d = dates ! m" by auto
  have "sorted_wrt (<) ?f" by (rule sorted_wrt_filter) simp
  then have least: "\<forall>y\<in>set ys. d < y" by (simp add: f)
  show "first_seen dates d"
    unfolding first_seen_iff
  proof (intro allI impI)
    fix i assume "i < d"
    show "dates ! i \<noteq> dates ! d"
    proof
      assume "dates ! i = dates ! d"
      then have "i \<in> set ?f" using \<open>i < d\<close> \<open>d < m\<close> \<open>dates ! d = dates ! m\<close> by simp
      then have "i = d \<or> i \<in> set ys" by (simp add: f del: set_filter)
      then show False using least \<open>i < d\<close> by auto
    qed
  qed
qed

lemma dedup_step_first: "first_seen dates m \<Longrightarrow> dedup_step dates s m = s"
  by (simp add: dedup_step_def first_seen_def)

lemma dedup_step_dup:
  assumes nf: "\<not> first_seen dates m"
    and d: "d = hd (filter (\<lambda>i. dates ! i = dates ! m) [0..<m])"
    and m: "m < length (WQ_TS_arr s)"
  shows "rem_ind (dedup_step dates s m) = (rem_ind s)[m := True]"
    and "length (WQ_TS_arr (dedup_step dates s m)) = length (WQ_TS_arr s)"
    and "WQ_TS_arr (dedup_step dates s m) ! d = resolve_pair (WQ_TS_arr s ! d) (WQ_TS_arr s ! m)"
    and "k \<noteq> d \<Longrightarrow> k \<noteq> m \<Longrightarrow> WQ_TS_arr (dedup_step dates s m) ! k = WQ_TS_arr s ! k"
proof -
  have ne: "filter (\<lambda>i. dates ! i = dates ! m) [0..<m] \<noteq> []"
    using nf by (simp add: first_seen_def)
  have dm: "d < m" using hd_dup_inds(1) [OF nf] d by simp
  then have dl: "d < length (WQ_TS_arr s)" and dne: "d \<noteq> m" using m by auto
  show "rem_ind (dedup_step dates s m) = (rem_ind s)[m := True]"
    using ne by (simp add: dedup_step_def Let_def)
  show "length (WQ_TS_arr (dedup_step dates s m)) = length (WQ_TS_arr s)"
    using ne by (simp add: dedup_step_def Let_def)
  show "WQ_TS_arr (dedup_step dates s m) ! d = resolve_pair (WQ_TS_arr s ! d) (WQ_TS_arr s ! m)"
    using ne dl dne m by (auto simp: dedup_step_def Let_def resolve_pair_def d [symmetric])
  show "WQ_TS_arr (dedup_step dates s m) ! k = WQ_TS_arr s ! k" if "k \<noteq> d" "k \<noteq> m"
    using ne that by (simp add: dedup_step_def Let_def d [symmetric])
qed

lemma merged_Suc:
  "k < m \<Longrightarrow> merged dates rs k (Suc m) =
     (if dates ! m = dates ! k then resolve_pair (merged dates rs k m) (rs ! m) else merged dates rs k m)"
  by (simp add: merged_def)

lemma merged_ge: "m \<le> Suc k \<Longrightarrow> merged dates rs k m = rs ! k"
  by (simp add: merged_def)

lemma first_seen_0: "first_seen dates 0"
  by (simp add: first_seen_def)

lemma dedup_inv_init:
  "length rs = length dates \<Longrightarrow>
   dedup_inv dates rs (Suc 0) \<lparr>WQ_TS_arr = rs, rem_ind = replicate (length dates) False\<rparr>"
  using first_seen_0 [of dates]
  by (auto simp: dedup_inv_def merged_ge intro: gr0I)

lemma dedup_inv_step:
  assumes inv: "dedup_inv dates rs m s" and m: "m < length dates" and m0: "0 < m"
  shows "dedup_inv dates rs (Suc m) (dedup_step dates s m)"
proof (cases "first_seen dates m")
  case True
  have st: "dedup_step dates s m = s" by (rule dedup_step_first [OF True])
  have mg: "merged dates rs k (Suc m) = merged dates rs k m" if "first_seen dates k" for k
  proof (cases "k < m")
    case True
    with \<open>first_seen dates m\<close> have "dates ! m \<noteq> dates ! k"
      by (auto simp: first_seen_iff)
    then show ?thesis using True by (simp add: merged_Suc)
  next
    case False
    then show ?thesis by (simp add: merged_ge)
  qed
  show ?thesis
    unfolding st using inv True
    by (auto simp: dedup_inv_def mg less_Suc_eq)
next
  case False
  define d where "d = hd (filter (\<lambda>i. dates ! i = dates ! m) [0..<m])"
  note hd = hd_dup_inds [OF False, folded d_def]
  let ?s = "dedup_step dates s m"
  have len: "length (WQ_TS_arr s) = length dates" "length (rem_ind s) = length dates"
    using inv by (auto simp: dedup_inv_def)
  have ml: "m < length (WQ_TS_arr s)" using m len by simp
  note stp = dedup_step_dup [OF False d_def ml]
  have arr_m: "WQ_TS_arr s ! m = rs ! m"
    using inv m by (auto simp: dedup_inv_def)
  have arr_d: "WQ_TS_arr s ! d = merged dates rs d m"
    using inv m hd by (auto simp: dedup_inv_def)
  have rem: "rem_ind ?s ! k = (k < Suc m \<and> \<not> first_seen dates k)" if "k < length dates" for k
  proof (cases "k = m")
    case True
    then show ?thesis using False len m by (simp add: stp(1))
  next
    case ne: False
    have "rem_ind ?s ! k = rem_ind s ! k" using ne by (simp add: stp(1))
    also have "\<dots> = (k < m \<and> \<not> first_seen dates k)"
      using inv that by (auto simp: dedup_inv_def)
    finally show ?thesis using ne by (auto simp: less_Suc_eq)
  qed
  have later: "WQ_TS_arr ?s ! k = rs ! k" if "k < length dates" "Suc m \<le> k" for k
  proof -
    have "k \<noteq> d" "k \<noteq> m" using that hd(1) by auto
    then have "WQ_TS_arr ?s ! k = WQ_TS_arr s ! k" by (rule stp(4))
    then show ?thesis using inv that by (auto simp: dedup_inv_def)
  qed
  have firsts: "WQ_TS_arr ?s ! k = merged dates rs k (Suc m)"
    if "k < length dates" "first_seen dates k" for k
  proof (cases "k = d")
    case True
    show ?thesis
      unfolding True stp(3) arr_m arr_d using hd by (simp add: merged_Suc)
  next
    case ne: False
    have km: "k \<noteq> m" using that(2) False by auto
    have "WQ_TS_arr ?s ! k = WQ_TS_arr s ! k" using ne km by (rule stp(4))
    also have "\<dots> = merged dates rs k m" using inv that by (auto simp: dedup_inv_def)
    also have "\<dots> = merged dates rs k (Suc m)"
    proof (cases "k < m")
      case True
      have "dates ! m \<noteq> dates ! k"
      proof
        assume eq: "dates ! m = dates ! k"
        have "k = d"
        proof (rule ccontr)
          assume "k \<noteq> d"
          then consider "k < d" | "d < k" by linarith
          then show False
          proof cases
            case 1
            then show ?thesis using hd(3) hd(2) eq by (auto simp: first_seen_iff)
          next
            case 2
            then show ?thesis using that(2) hd(2) eq by (auto simp: first_seen_iff)
          qed
        qed
        then show False using ne by simp
      qed
      then show ?thesis using True by (simp add: merged_Suc)
    next
      case False
      then show ?thesis by (simp add: merged_ge)
    qed
    finally show ?thesis .
  qed
  show ?thesis
    unfolding dedup_inv_def using stp(2) len stp(1) rem later firsts by simp
qed

lemma dedup_loop_Suc: "0 < m \<Longrightarrow> dedup_loop dates (Suc m) s = dedup_step dates (dedup_loop dates m s) m"
  by (simp add: dedup_loop_def)

lemma dedup_loop_inv:
  assumes "length rs = length dates"
  shows "0 < m \<Longrightarrow> m \<le> length dates \<Longrightarrow>
     dedup_inv dates rs m (dedup_loop dates m \<lparr>WQ_TS_arr = rs, rem_ind = replicate (length dates) False\<rparr>)"
proof (induction m)
  case 0
  then show ?case by simp
next
  case (Suc m)
  show ?case
  proof (cases "m = 0")
    case True
    then show ?thesis using dedup_inv_init [OF assms] by (simp add: dedup_loop_def)
  next
    case False
    then have "0 < m" by simp
    with Suc show ?thesis
      by (simp add: dedup_loop_Suc dedup_inv_step)
  qed
qed

lemma dedup_index_form: "dedup xs = index_form {} xs"
proof (cases "xs = []")
  case True
  then show ?thesis
    by (simp add: dedup_def dedup_loop_def select_not_def index_form_def)
next
  case False
  let ?dates = "map fst xs" and ?rs = "map snd xs"
  let ?n = "length xs"
  define s where "s = dedup_loop ?dates (length ?dates)
     \<lparr>WQ_TS_arr = ?rs, rem_ind = replicate (length ?dates) False\<rparr>"
  have "dedup_inv ?dates ?rs (length ?dates) s"
    unfolding s_def using False by (intro dedup_loop_inv) auto
  then have len: "length (WQ_TS_arr s) = ?n" "length (rem_ind s) = ?n"
    and rem: "\<And>k. k < ?n \<Longrightarrow> rem_ind s ! k = (\<not> first_seen ?dates k)"
    and arr: "\<And>k. k < ?n \<Longrightarrow> first_seen ?dates k \<Longrightarrow> WQ_TS_arr s ! k = merged ?dates ?rs k ?n"
    by (auto simp: dedup_inv_def)
  let ?keep = "filter (first_seen ?dates) [0..<?n]"
  have keep: "filter (\<lambda>k. \<not> rem_ind s ! k) [0..<?n] = ?keep"
    by (rule filter_cong) (auto simp: rem)
  have sd: "select_not (rem_ind s) ?dates = map ((!) ?dates) ?keep"
    using select_not_nth [of "rem_ind s" ?dates] len keep by simp
  have "select_not (rem_ind s) (WQ_TS_arr s) = map ((!) (WQ_TS_arr s)) ?keep"
    using select_not_nth [of "rem_ind s" "WQ_TS_arr s"] len keep by simp
  also have "\<dots> = map (\<lambda>k. merged ?dates ?rs k ?n) ?keep"
    by (rule map_cong) (auto simp: arr)
  finally have sa: "select_not (rem_ind s) (WQ_TS_arr s) = map (\<lambda>k. merged ?dates ?rs k ?n) ?keep" .
  have "dedup xs = zip (select_not (rem_ind s) ?dates) (select_not (rem_ind s) (WQ_TS_arr s))"
    by (simp add: dedup_def s_def Let_def)
  also have "\<dots> = map (\<lambda>k. (?dates ! k, merged ?dates ?rs k ?n)) ?keep"
    unfolding sd sa by (simp add: zip_map_map zip_same_conv_map)
  finally show ?thesis by (simp add: index_form_def)
qed

lemma first_seen_Cons_Suc:
  "first_seen (d # ds) (Suc k) \<longleftrightarrow> d \<noteq> ds ! k \<and> first_seen ds k"
  by (simp add: first_seen_iff All_less_Suc2)

lemma merged_Cons_Suc: "merged (d # ds) (r # rs) (Suc k) (Suc n) = merged ds rs k n"
proof -
  have "[Suc (Suc k)..<Suc n] = map Suc [Suc k..<n]"
    by (simp only: map_Suc_upt)
  then show ?thesis
    by (simp add: merged_def filter_map comp_def)
qed

lemma map_filter_nth:
  "map (\<lambda>j. f (xs ! j)) (filter (\<lambda>j. Q (xs ! j)) [0..<length xs]) = map f (filter Q xs)"
proof -
  have "map f (filter Q xs) = map f (filter Q (map ((!) xs) [0..<length xs]))"
    by (simp only: map_nth)
  also have "\<dots> = map (\<lambda>j. f (xs ! j)) (filter (\<lambda>j. Q (xs ! j)) [0..<length xs])"
    by (simp add: filter_map comp_def)
  finally show ?thesis by simp
qed

lemma merged_Cons_0:
  "merged (d # map fst xs) (r # map snd xs) 0 (Suc (length xs))
     = foldl resolve_pair r (map snd (filter (\<lambda>p. fst p = d) xs))"
proof -
  have u: "[Suc 0..<Suc (length xs)] = map Suc [0..<length xs]"
    by (simp only: map_Suc_upt)
  have "map ((!) (r # map snd xs)) (filter (\<lambda>j. (d # map fst xs) ! j = d) [Suc 0..<Suc (length xs)])
      = map (\<lambda>j. map snd xs ! j) (filter (\<lambda>j. map fst xs ! j = d) [0..<length xs])"
    unfolding u by (simp add: filter_map comp_def)
  also have "\<dots> = map (\<lambda>j. snd (xs ! j)) (filter (\<lambda>j. fst (xs ! j) = d) [0..<length xs])"
  proof -
    have f: "filter (\<lambda>j. map fst xs ! j = d) [0..<length xs] = filter (\<lambda>j. fst (xs ! j) = d) [0..<length xs]"
      by (rule filter_cong) auto
    show ?thesis unfolding f by (rule map_cong) auto
  qed
  also have "\<dots> = map snd (filter (\<lambda>p. fst p = d) xs)"
    by (rule map_filter_nth)
  finally show ?thesis by (simp add: merged_def)
qed

lemma index_form_seen: "index_form seen xs = dedup_seen seen xs"
proof (induction xs arbitrary: seen)
  case Nil
  then show ?case by (simp add: index_form_def)
next
  case (Cons x xs)
  let ?ds = "map fst xs" and ?rs = "map snd xs"
  let ?P = "\<lambda>k. (fst x # ?ds) ! k \<notin> seen \<and> first_seen (fst x # ?ds) k"
  let ?g = "\<lambda>k. ((fst x # ?ds) ! k, merged (fst x # ?ds) (snd x # ?rs) k (Suc (length xs)))"
  have u: "[0..<Suc (length xs)] = 0 # map Suc [0..<length xs]"
    by (simp only: upt_conv_Cons map_Suc_upt)
  have P0: "?P 0 \<longleftrightarrow> fst x \<notin> seen" by (simp add: first_seen_0)
  have PS: "(?P \<circ> Suc) = (\<lambda>k. ?ds ! k \<notin> insert (fst x) seen \<and> first_seen ?ds k)"
    by (auto simp: fun_eq_iff first_seen_Cons_Suc)
  have g0: "?g 0 = (fst x, foldl resolve_pair (snd x) (map snd (filter (\<lambda>p. fst p = fst x) xs)))"
    by (simp add: merged_Cons_0)
  have gS: "(?g \<circ> Suc) = (\<lambda>k. (?ds ! k, merged ?ds ?rs k (length xs)))"
    by (simp add: fun_eq_iff merged_Cons_Suc)
  have "index_form seen (x # xs) = map ?g (filter ?P [0..<Suc (length xs)])"
    by (simp add: index_form_def)
  also have "\<dots> = (if ?P 0 then [?g 0] else []) @ map (?g \<circ> Suc) (filter (?P \<circ> Suc) [0..<length xs])"
    unfolding u by (simp add: filter_map)
  also have "\<dots> = (if fst x \<in> seen then [] else [?g 0]) @ index_form (insert (fst x) seen) xs"
    unfolding P0 PS gS by (simp add: index_form_def)
  finally show ?case
    using Cons.IH [of "insert (fst x) seen"] g0 by simp
qed

lemma dedup_seen_rule: "dedup_seen seen xs = dedup_rule resolve_pair (filter (\<lambda>p. fst p \<notin> seen) xs)"
proof (induction xs arbitrary: seen)
  case Nil
  then show ?case by simp
next
  case (Cons x xs)
  show ?case
  proof (cases "fst x \<in> seen")
    case True
    then show ?thesis by (simp add: Cons.IH insert_absorb)
  next
    case False
    have a: "filter (\<lambda>p. fst p \<notin> seen \<and> fst p = fst x) xs = filter (\<lambda>p. fst p = fst x) xs"
      using False by (auto intro: filter_cong)
    have b: "(\<lambda>p. fst p \<notin> seen \<and> fst p \<noteq> fst x) = (\<lambda>p. fst p \<noteq> fst x \<and> fst p \<notin> seen)"
      by auto
    show ?thesis using False by (simp add: Cons.IH a b)
  qed
qed

lemma dedup_eq_rule: "dedup xs = dedup_rule resolve_pair xs"
  by (simp add: dedup_index_form index_form_seen dedup_seen_rule)

lemma dedup_rule_dates_subset: "set (map fst (dedup_rule res xs)) \<subseteq> set (map fst xs)"
  by (induction res xs rule: dedup_rule.induct) auto

lemma dedup_rule_distinct_dates: "distinct (map fst (dedup_rule res xs))"
proof (induction res xs rule: dedup_rule.induct)
  case (1 res)
  then show ?case by simp
next
  case (2 res x xs)
  have "fst x \<notin> set (map fst (filter (\<lambda>p. fst p \<noteq> fst x) xs))" by auto
  then have "fst x \<notin> set (map fst (dedup_rule res (filter (\<lambda>p. fst p \<noteq> fst x) xs)))"
    using dedup_rule_dates_subset by blast
  then show ?case using 2 by simp
qed

lemma filter_date_absent:
  assumes "d \<notin> fst ` set xs"
  shows "filter (\<lambda>p. fst p = d) xs = []" "filter (\<lambda>p. fst p \<noteq> d) xs = xs"
  using assms by (auto simp: filter_empty_conv filter_id_conv)

lemma dedup_rule_prefix:
  "distinct (map fst pre) \<Longrightarrow> fst ` set pre \<inter> fst ` set ys = {} \<Longrightarrow>
   dedup_rule res (pre @ ys) = pre @ dedup_rule res ys"
proof (induction pre)
  case Nil
  then show ?case by simp
next
  case (Cons x pre)
  have "fst x \<notin> fst ` set (pre @ ys)" using Cons.prems by auto
  note f = filter_date_absent [OF this]
  show ?case using Cons by (simp add: f del: filter_append)
qed

lemma dedup_rule_id: "distinct (map fst xs) \<Longrightarrow> dedup_rule res xs = xs"
  using dedup_rule_prefix [of xs "[]" res] by simp

lemma dedup_rule_one_dup:
  assumes "distinct (d # map fst (pre @ mid @ post))"
  shows "dedup_rule res (pre @ (d, e) # mid @ (d, l) # post) = pre @ (d, res e l) # mid @ post"
proof -
  have pre: "dedup_rule res (pre @ (d, e) # mid @ (d, l) # post)
           = pre @ dedup_rule res ((d, e) # mid @ (d, l) # post)"
    using assms by (intro dedup_rule_prefix) auto
  have dm: "d \<notin> fst ` set mid" and dp: "d \<notin> fst ` set post" using assms by auto
  have f1: "filter (\<lambda>p. fst p = d) (mid @ (d, l) # post) = [(d, l)]"
    by (simp add: filter_date_absent [OF dm] filter_date_absent [OF dp])
  have f2: "filter (\<lambda>p. fst p \<noteq> d) (mid @ (d, l) # post) = mid @ post"
    by (simp add: filter_date_absent [OF dm] filter_date_absent [OF dp])
  have "distinct (map fst (mid @ post))" using assms by auto
  then have rest: "dedup_rule res (mid @ post) = mid @ post" by (rule dedup_rule_id)
  show ?thesis unfolding pre by (simp add: f1 f2 rest del: filter_append)
qed

lemma fill_nans_nth:
  "r < length a \<Longrightarrow> r < length b \<Longrightarrow> c < length (a ! r) \<Longrightarrow> c < length (b ! r) \<Longrightarrow>
   fill_nans a b ! r ! c = (if isnan (a ! r ! c) then b ! r ! c else a ! r ! c)"
  by (simp add: fill_nans_def)

section \<open>Water mask: the structuring element is the disk\<close>

lemma in_disk_sym: "in_disk npix nmid i j = in_disk npix nmid j i"
  by (simp add: in_disk_def pdist_def Let_def add.commute)

lemma represents_cong:
  "represents n S Q \<Longrightarrow> (\<And>a b. a < n \<Longrightarrow> b < n \<Longrightarrow> Q a b = Q' a b) \<Longrightarrow> represents n S Q'"
  by (simp add: represents_def)

lemma set_true_repr:
  "represents n S Q \<Longrightarrow> i < n \<Longrightarrow> j < n \<Longrightarrow>
   represents n (set_true S i j) (\<lambda>a b. Q a b \<or> (a = i \<and> b = j))"
  by (auto simp: represents_def set_true_def nth_list_update)

lemma struc_step_repr:
  assumes "represents n S Q" "ii < n" "jj < n"
  shows "represents n (struc_step npix nmid ii S jj)
     (\<lambda>a b. Q a b \<or> (in_disk npix nmid ii jj \<and> ((a = ii \<and> b = jj) \<or> (a = jj \<and> b = ii))))"
proof (cases "in_disk npix nmid ii jj")
  case True
  have "represents n (set_true (set_true S ii jj) jj ii)
          (\<lambda>a b. (Q a b \<or> (a = ii \<and> b = jj)) \<or> (a = jj \<and> b = ii))"
    using assms by (intro set_true_repr)
  then show ?thesis
    using True by (auto simp: struc_step_def in_disk_def [symmetric] elim: represents_cong)
next
  case False
  then show ?thesis
    using assms(1) by (auto simp: struc_step_def in_disk_def [symmetric] elim: represents_cong)
qed

lemma inner_repr:
  assumes "represents n S Q" "ii < n"
  shows "ii \<le> m \<Longrightarrow> m \<le> n \<Longrightarrow>
     represents n (fold (\<lambda>jj s. struc_step npix nmid ii s jj) [ii..<m] S)
       (\<lambda>a b. Q a b \<or> (\<exists>jj. ii \<le> jj \<and> jj < m \<and> in_disk npix nmid ii jj \<and>
                           ((a = ii \<and> b = jj) \<or> (a = jj \<and> b = ii))))"
proof (induction m)
  case 0
  then show ?case using assms(1) by (auto elim: represents_cong)
next
  case (Suc m)
  show ?case
  proof (cases "ii \<le> m")
    case True
    have ih: "represents n (fold (\<lambda>jj s. struc_step npix nmid ii s jj) [ii..<m] S)
       (\<lambda>a b. Q a b \<or> (\<exists>jj. ii \<le> jj \<and> jj < m \<and> in_disk npix nmid ii jj \<and>
                           ((a = ii \<and> b = jj) \<or> (a = jj \<and> b = ii))))"
      using Suc True by simp
    have mn: "m < n" using Suc.prems by simp
    have st: "fold (\<lambda>jj s. struc_step npix nmid ii s jj) [ii..<Suc m] S
            = struc_step npix nmid ii (fold (\<lambda>jj s. struc_step npix nmid ii s jj) [ii..<m] S) m"
      using True by simp
    show ?thesis
      unfolding st
      using True
      by (intro represents_cong [OF struc_step_repr [OF ih assms(2) mn]]) (auto simp: less_Suc_eq)
  next
    case False
    then have "ii = Suc m" using Suc.prems by simp
    then show ?thesis using assms(1) by (auto elim: represents_cong)
  qed
qed

lemma outer_repr:
  assumes "represents n S Q"
  shows "k \<le> n \<Longrightarrow>
     represents n (fold (\<lambda>ii s. fold (\<lambda>jj s. struc_step npix nmid ii s jj) [ii..<n] s) [0..<k] S)
       (\<lambda>a b. Q a b \<or> (\<exists>ii jj. ii < k \<and> ii \<le> jj \<and> jj < n \<and> in_disk npix nmid ii jj \<and>
                           ((a = ii \<and> b = jj) \<or> (a = jj \<and> b = ii))))"
proof (induction k)
  case 0
  then show ?case using assms by (auto elim: represents_cong)
next
  case (Suc k)
  have ih: "represents n (fold (\<lambda>ii s. fold (\<lambda>jj s. struc_step npix nmid ii s jj) [ii..<n] s) [0..<k] S)
       (\<lambda>a b. Q a b \<or> (\<exists>ii jj. ii < k \<and> ii \<le> jj \<and> jj < n \<and> in_disk npix nmid ii jj \<and>
                           ((a = ii \<and> b = jj) \<or> (a = jj \<and> b = ii))))"
    using Suc by simp
  have kn: "k < n" "k \<le> n" using Suc.prems by simp_all
  show ?case
    unfolding upt_Suc_append [OF le0] fold_append comp_apply fold_simps
    by (rule represents_cong [OF inner_repr [OF ih kn(1) kn(2) le_refl]]) (auto simp: less_Suc_eq)
qed

lemma build_struc_repr: "represents n (build_struc npix nmid n) (in_disk npix nmid)"
proof -
  have "represents n (replicate n (replicate n False)) (\<lambda>a b. False)"
    by (simp add: represents_def)
  from outer_repr [OF this le_refl, of npix nmid]
  show ?thesis
    unfolding build_struc_def
  proof (rule represents_cong)
    fix a b assume ab: "a < n" "b < n"
    show "(False \<or> (\<exists>ii jj. ii < n \<and> ii \<le> jj \<and> jj < n \<and> in_disk npix nmid ii jj \<and>
                           ((a = ii \<and> b = jj) \<or> (a = jj \<and> b = ii)))) = in_disk npix nmid a b"
      (is "?L = ?R")
    proof
      assume ?L
      then obtain ii jj where "in_disk npix nmid ii jj" "(a = ii \<and> b = jj) \<or> (a = jj \<and> b = ii)"
        by blast
      then show ?R using in_disk_sym [of npix nmid a b] by auto
    next
      assume R: ?R
      show ?L
      proof (cases "a \<le> b")
        case True
        with R ab have "a < n \<and> a \<le> b \<and> b < n \<and> in_disk npix nmid a b \<and>
                           ((a = a \<and> b = b) \<or> (a = b \<and> b = a))" by simp
        then show ?thesis by blast
      next
        case False
        with R ab in_disk_sym [of npix nmid a b]
        have "b < n \<and> b \<le> a \<and> a < n \<and> in_disk npix nmid b a \<and>
                           ((a = b \<and> b = a) \<or> (a = a \<and> b = b))" by simp
        then show ?thesis by blast
      qed
    qed
  qed
qed

lemma build_struc_nth:
  assumes "i < n" "j < n"
  shows "length (build_struc npix nmid n) = n" "length (build_struc npix nmid n ! i) = n"
    "build_struc npix nmid n ! i ! j = in_disk npix nmid i j"
  using build_struc_repr [of n npix nmid] assms by (auto simp: represents_def)

lemma binary_dilation_shape:
  "length (binary_dilation input struc) = length input"
  "r < length input \<Longrightarrow> length (binary_dilation input struc ! r) = length (input ! r)"
  by (simp_all add: binary_dilation_def)

lemma binary_dilation_nth:
  assumes "r < length input" "c < length (input ! r)"
  shows "binary_dilation input struc ! r ! c \<longleftrightarrow>
     (\<exists>ii jj. ii < length struc \<and> jj < length (struc ! ii) \<and> struc ! ii ! jj \<and>
        0 \<le> int r - (int ii - int (length struc div 2)) \<and>
        int r - (int ii - int (length struc div 2)) < int (length input) \<and>
        0 \<le> int c - (int jj - int (length (struc ! ii) div 2)) \<and>
        int c - (int jj - int (length (struc ! ii) div 2))
          < int (length (input ! nat (int r - (int ii - int (length struc div 2))))) \<and>
        input ! nat (int r - (int ii - int (length struc div 2)))
              ! nat (int c - (int jj - int (length (struc ! ii) div 2))))"
  using assms by (simp add: binary_dilation_def list_ex_iff Let_def Bex_def)

lemma int_abs_le_floor:
  assumes "\<bar>real_of_int z\<bar> \<le> x"
  shows "\<bar>z\<bar> \<le> \<lfloor>x\<rfloor>"
proof -
  have "real_of_int \<bar>z\<bar> \<le> x" using assms by simp
  then show ?thesis by (simp only: le_floor_iff)
qed

lemma in_disk_offset:
  assumes "0 \<le> N + dx" "0 \<le> N + dy"
  shows "in_disk npix N (nat (N + dx)) (nat (N + dy)) \<longleftrightarrow>
           pdist (0, 0) (of_int dx, of_int dy) \<le> npix"
proof -
  have "real (nat (N + dx)) = of_int N + of_int dx" "real (nat (N + dy)) = of_int N + of_int dy"
    using assms by simp_all
  then show ?thesis by (simp add: in_disk_def pdist_def)
qed

lemma expand_mask_nth:
  assumes npix: "0 \<le> npix" and r: "r < length m" and c: "c < length (m ! r)"
  shows "\<exists>out. expand_mask m npix = Inr out \<and> length out = length m \<and>
           length (out ! r) = length (m ! r) \<and>
           (out ! r ! c \<longleftrightarrow>
             (\<exists>r' c'. r' < length m \<and> c' < length (m ! r') \<and> m ! r' ! c' \<and>
                      in_kernel npix (int r - int r') (int c - int c')))"
proof -
  define N where "N = \<lfloor>npix\<rfloor>"
  define n where "n = nat (N * 2 + 1)"
  define S where "S = build_struc npix N n"
  have N0: "0 \<le> N" using npix by (simp add: N_def)
  have n: "int n = 2 * N + 1" using N0 by (simp add: n_def)
  have half: "int (n div 2) = N" using n by linarith
  have ex: "expand_mask m npix = Inr (binary_dilation m S)"
    using N0 by (simp add: expand_mask_def Let_def N_def [symmetric] n_def [symmetric] S_def)
  have lenS: "length S = n"
  proof -
    have "0 < n" using n N0 by linarith
    then show ?thesis unfolding S_def using build_struc_nth(1) [of 0 n 0] by simp
  qed
  have S: "length (S ! i) = n" "S ! i ! j = in_disk npix N i j" if "i < n" "j < n" for i j
    using that by (simp_all add: S_def build_struc_nth)
  let ?R = "\<exists>r' c'. r' < length m \<and> c' < length (m ! r') \<and> m ! r' ! c' \<and>
                      in_kernel npix (int r - int r') (int c - int c')"
  have "binary_dilation m S ! r ! c \<longleftrightarrow> ?R"
  proof
    assume "binary_dilation m S ! r ! c"
    then obtain ii jj where ij: "ii < n" "jj < length (S ! ii)" "S ! ii ! jj"
      and r': "0 \<le> int r - (int ii - N)" "int r - (int ii - N) < int (length m)"
      and c': "0 \<le> int c - (int jj - int (length (S ! ii) div 2))"
        "int c - (int jj - int (length (S ! ii) div 2))
          < int (length (m ! nat (int r - (int ii - N))))"
      and inp: "m ! nat (int r - (int ii - N)) ! nat (int c - (int jj - int (length (S ! ii) div 2)))"
      unfolding binary_dilation_nth [OF r c] lenS half by blast
    have jj: "jj < n" using ij S(1) by simp
    have lenrow: "int (length (S ! ii) div 2) = N" using S(1) [OF ij(1) jj] half by simp
    define r1 where "r1 = nat (int r - (int ii - N))"
    define c1 where "c1 = nat (int c - (int jj - N))"
    have r1: "int r1 = int r - (int ii - N)" using r' by (simp add: r1_def)
    have c1: "int c1 = int c - (int jj - N)" using c' lenrow by (simp add: c1_def)
    define dx where "dx = int r - int r1"
    define dy where "dy = int c - int c1"
    have dx: "dx = int ii - N" and dy: "dy = int jj - N" by (simp_all add: dx_def dy_def r1 c1)
    have box: "\<bar>dx\<bar> \<le> N" "\<bar>dy\<bar> \<le> N" using ij(1) jj n dx dy by linarith+
    have idx: "nat (N + dx) = ii" "nat (N + dy) = jj" by (simp_all add: dx dy)
    have "in_disk npix N ii jj" using ij S(2) [OF ij(1) jj] by simp
    then have "pdist (0, 0) (of_int dx, of_int dy) \<le> npix"
      using in_disk_offset [of N dx dy npix] box unfolding idx by linarith
    then have "in_kernel npix (int r - int r1) (int c - int c1)"
      using box by (simp add: in_kernel_def N_def dx_def dy_def)
    moreover have "r1 < length m" "c1 < length (m ! r1)" "m ! r1 ! c1"
      using r' c' inp lenrow by (simp_all add: r1_def c1_def)
    ultimately show ?R by blast
  next
    assume ?R
    then obtain r1 c1 where rc: "r1 < length m" "c1 < length (m ! r1)" "m ! r1 ! c1"
      and k: "in_kernel npix (int r - int r1) (int c - int c1)" by blast
    have ar: "\<bar>int r - int r1\<bar> \<le> N" and ac: "\<bar>int c - int c1\<bar> \<le> N"
      and d: "pdist (0, 0) (of_int (int r - int r1), of_int (int c - int c1)) \<le> npix"
      using k by (simp_all add: in_kernel_def N_def)
    define ii where "ii = nat (N + (int r - int r1))"
    define jj where "jj = nat (N + (int c - int c1))"
    have ii: "int ii = int r - int r1 + N" using ar by (simp add: ii_def)
    have jj: "int jj = int c - int c1 + N" using ac by (simp add: jj_def)
    have iin: "ii < n" and jjn: "jj < n" using ii jj ar ac n by linarith+
    have "0 \<le> N + (int r - int r1)" "0 \<le> N + (int c - int c1)" using ar ac by linarith+
    then have "in_disk npix N ii jj"
      unfolding ii_def jj_def using d by (simp only: in_disk_offset)
    then have Sij: "S ! ii ! jj" using S(2) [OF iin jjn] by simp
    have orig: "int r - (int ii - N) = int r1" "int c - (int jj - N) = int c1"
      using ii jj by simp_all
    show "binary_dilation m S ! r ! c"
      unfolding binary_dilation_nth [OF r c] lenS half
      apply (rule exI [of _ ii], rule exI [of _ jj])
      using iin jjn S(1) [OF iin jjn] Sij rc by (simp add: half orig)
  qed
  then show ?thesis
    using ex binary_dilation_shape(1) [of m S] binary_dilation_shape(2) [OF r, of S] by simp
qed

lemma expand_mask_Inr:
  assumes "0 \<le> npix"
  shows "\<exists>out. expand_mask m npix = Inr out \<and> length out = length m \<and>
           (\<forall>r<length m. length (out ! r) = length (m ! r))"
proof -
  have "0 \<le> \<lfloor>npix\<rfloor>" using assms by simp
  then have "\<not> \<lfloor>npix\<rfloor> * 2 + 1 < 0" by linarith
  then show ?thesis
    by (simp add: expand_mask_def Let_def binary_dilation_shape)
qed

lemma f64_round_0 [simp]: "f64_round 0 = 0"
  by (simp add: f64_round_def)

lemma int_square_bound:
  assumes "\<bar>z\<bar> < (2::int) ^ 26"
  shows "z\<^sup>2 < 2 ^ 52"
proof -
  have "\<bar>z\<bar> ^ 2 < (2 ^ 26) ^ 2" using assms by (intro power_strict_mono) simp_all
  then show ?thesis by simp
qed

lemma pdist_offset:
  assumes dx: "\<bar>dx\<bar> < 2 ^ 26" and dy: "\<bar>dy\<bar> < 2 ^ 26"
  shows "pdist (0, 0) (of_int dx, of_int dy) = f64_dist dx dy"
proof -
  have sx: "dx\<^sup>2 < 2 ^ 52" and sy: "dy\<^sup>2 < 2 ^ 52"
    by (rule int_square_bound [OF dx], rule int_square_bound [OF dy])
  have nx: "0 \<le> dx\<^sup>2" and ny: "0 \<le> dy\<^sup>2" by simp_all
  have d0: "f64_round (0 - of_int dx) = of_int (- dx)"
    using f64_round_int [of "- dx"] dx by simp
  have d1: "f64_round (0 - of_int dy) = of_int (- dy)"
    using f64_round_int [of "- dy"] dy by simp
  have q0: "f64_round (of_int (- dx) * of_int (- dx)) = of_int (dx\<^sup>2)"
    using f64_round_int [of "dx\<^sup>2"] sx nx by (simp add: power2_eq_square)
  have q1: "f64_round (of_int (- dy) * of_int (- dy)) = of_int (dy\<^sup>2)"
    using f64_round_int [of "dy\<^sup>2"] sy ny by (simp add: power2_eq_square)
  have s: "f64_round (of_int (dx\<^sup>2) + of_int (dy\<^sup>2)) = of_int (dx\<^sup>2 + dy\<^sup>2)"
    using f64_round_int [of "dx\<^sup>2 + dy\<^sup>2"] sx sy nx ny by simp
  show ?thesis
    unfolding pdist_def Let_def fst_conv snd_conv d0 d1 q0 q1 s f64_dist_def ..
qed

lemma abs_le_sqrt_sum:
  "real_of_int \<bar>dx\<bar> \<le> sqrt (of_int (dx\<^sup>2 + dy\<^sup>2))"
  "real_of_int \<bar>dy\<bar> \<le> sqrt (of_int (dx\<^sup>2 + dy\<^sup>2))"
proof -
  have "real_of_int \<bar>dx\<bar> = sqrt ((of_int dx)\<^sup>2)" by simp
  also have "\<dots> \<le> sqrt (of_int (dx\<^sup>2 + dy\<^sup>2))" by (rule real_sqrt_le_mono) simp
  finally show "real_of_int \<bar>dx\<bar> \<le> sqrt (of_int (dx\<^sup>2 + dy\<^sup>2))" .
  have "real_of_int \<bar>dy\<bar> = sqrt ((of_int dy)\<^sup>2)" by simp
  also have "\<dots> \<le> sqrt (of_int (dx\<^sup>2 + dy\<^sup>2))" by (rule real_sqrt_le_mono) simp
  finally show "real_of_int \<bar>dy\<bar> \<le> sqrt (of_int (dx\<^sup>2 + dy\<^sup>2))" .
qed

lemma f64_dist_bounds_offset:
  assumes le: "f64_dist dx dy \<le> npix" and small: "npix < 2 ^ 26"
  shows "real_of_int \<bar>dx\<bar> \<le> npix" "real_of_int \<bar>dy\<bar> \<le> npix"
proof -
  have key: "real_of_int \<bar>z\<bar> \<le> npix" if z: "real_of_int \<bar>z\<bar> \<le> sqrt (of_int (dx\<^sup>2 + dy\<^sup>2))" for z
  proof (cases "\<bar>z\<bar> < 2 ^ 26")
    case True
    then have "is_f64 (of_int \<bar>z\<bar>)" by (intro is_f64_int) simp
    then have "real_of_int \<bar>z\<bar> \<le> f64_dist dx dy"
      unfolding f64_dist_def using z by (rule f64_round_lower)
    then show ?thesis using le by simp
  next
    case False
    then have "(2::int) ^ 26 \<le> \<bar>z\<bar>" by simp
    then have "real_of_int (2 ^ 26) \<le> real_of_int \<bar>z\<bar>" by (simp only: of_int_le_iff)
    then have "real_of_int (2 ^ 26) \<le> sqrt (of_int (dx\<^sup>2 + dy\<^sup>2))" using z by simp
    moreover have "is_f64 (of_int (2 ^ 26))" by (intro is_f64_int) simp
    ultimately have "real_of_int (2 ^ 26) \<le> f64_dist dx dy"
      unfolding f64_dist_def by (intro f64_round_lower)
    then show ?thesis using le small by simp
  qed
  show "real_of_int \<bar>dx\<bar> \<le> npix" "real_of_int \<bar>dy\<bar> \<le> npix"
    by (rule key, rule abs_le_sqrt_sum(1), rule key, rule abs_le_sqrt_sum(2))
qed

lemma in_kernel_f64_dist:
  assumes "0 \<le> npix" and small: "npix < 2 ^ 26"
  shows "in_kernel npix dx dy \<longleftrightarrow> f64_dist dx dy \<le> npix"
proof
  assume k: "in_kernel npix dx dy"
  have N: "real_of_int \<lfloor>npix\<rfloor> < 2 ^ 26" using small by linarith
  then have "\<lfloor>npix\<rfloor> < 2 ^ 26" by (metis of_int_less_numeral_power_cancel_iff)
  moreover have "\<bar>dx\<bar> \<le> \<lfloor>npix\<rfloor>" "\<bar>dy\<bar> \<le> \<lfloor>npix\<rfloor>"
    using k unfolding in_kernel_def by blast+
  ultimately have "\<bar>dx\<bar> < 2 ^ 26" "\<bar>dy\<bar> < 2 ^ 26" by linarith+
  then have "pdist (0, 0) (of_int dx, of_int dy) = f64_dist dx dy" by (rule pdist_offset)
  then show "f64_dist dx dy \<le> npix" using k unfolding in_kernel_def by simp
next
  assume le: "f64_dist dx dy \<le> npix"
  note b = f64_dist_bounds_offset [OF le small]
  have bx: "\<bar>dx\<bar> \<le> \<lfloor>npix\<rfloor>" and by': "\<bar>dy\<bar> \<le> \<lfloor>npix\<rfloor>"
    using b by (simp_all only: le_floor_iff)
  have "real_of_int \<bar>dx\<bar> < 2 ^ 26" "real_of_int \<bar>dy\<bar> < 2 ^ 26" using b small by linarith+
  then have "\<bar>dx\<bar> < 2 ^ 26" "\<bar>dy\<bar> < 2 ^ 26"
    by (metis of_int_less_numeral_power_cancel_iff)+
  then have "pdist (0, 0) (of_int dx, of_int dy) = f64_dist dx dy" by (rule pdist_offset)
  then show "in_kernel npix dx dy" using le bx by' unfolding in_kernel_def by simp
qed

lemma build_struc_kernel:
  assumes "0 \<le> npix"
  shows "(\<bar>dx\<bar> \<le> \<lfloor>npix\<rfloor> \<and> \<bar>dy\<bar> \<le> \<lfloor>npix\<rfloor> \<and>
            build_struc npix \<lfloor>npix\<rfloor> (nat (\<lfloor>npix\<rfloor> * 2 + 1))
              ! nat (\<lfloor>npix\<rfloor> + dx) ! nat (\<lfloor>npix\<rfloor> + dy))
           \<longleftrightarrow> in_kernel npix dx dy"
proof (cases "\<bar>dx\<bar> \<le> \<lfloor>npix\<rfloor> \<and> \<bar>dy\<bar> \<le> \<lfloor>npix\<rfloor>")
  case True
  define N where "N = \<lfloor>npix\<rfloor>"
  have box: "\<bar>dx\<bar> \<le> N" "\<bar>dy\<bar> \<le> N" using True by (simp_all add: N_def)
  have i: "nat (N + dx) < nat (N * 2 + 1)" and j: "nat (N + dy) < nat (N * 2 + 1)"
    using box by linarith+
  have nn: "0 \<le> N + dx" "0 \<le> N + dy" using box by linarith+
  have "build_struc npix N (nat (N * 2 + 1)) ! nat (N + dx) ! nat (N + dy)
          \<longleftrightarrow> pdist (0, 0) (of_int dx, of_int dy) \<le> npix"
    unfolding build_struc_nth(3) [OF i j] by (rule in_disk_offset [OF nn])
  then show ?thesis using box by (simp add: in_kernel_def N_def)
next
  case False
  then show ?thesis by (auto simp: in_kernel_def)
qed

lemma in_kernel_mono: "in_kernel b dx dy \<Longrightarrow> b \<le> b' \<Longrightarrow> in_kernel b' dx dy"
proof -
  assume k: "in_kernel b dx dy" and le: "b \<le> b'"
  have "\<lfloor>b\<rfloor> \<le> \<lfloor>b'\<rfloor>" using le by (rule floor_mono)
  then show ?thesis using k le unfolding in_kernel_def by linarith
qed

lemma in_kernel_centre: "0 \<le> npix \<Longrightarrow> in_kernel npix 0 0"
  by (simp add: in_kernel_def pdist_def)

lemma sqrt_13_bounds:
  "8118979690322419 - 1 / 2 < sqrt 13 * 2 ^ 51" "sqrt 13 * 2 ^ 51 < 8118979690322419 + 1 / 2"
proof -
  have "((8118979690322419 - 1 / 2) / 2 ^ 51)\<^sup>2 < (13::real)" by (simp add: power2_eq_square)
  then have "(8118979690322419 - 1 / 2) / 2 ^ 51 < sqrt 13" by (rule real_less_rsqrt)
  then show "8118979690322419 - 1 / 2 < sqrt 13 * 2 ^ 51" by (simp add: field_simps)
  have "(13::real) < ((8118979690322419 + 1 / 2) / 2 ^ 51)\<^sup>2" by (simp add: power2_eq_square)
  then have "sqrt 13 < (8118979690322419 + 1 / 2) / 2 ^ 51" by (intro real_less_lsqrt) simp_all
  then show "sqrt 13 * 2 ^ 51 < 8118979690322419 + 1 / 2" by (simp add: field_simps)
qed

lemma f64_sqrt_13: "f64_round (sqrt 13) = 8118979690322419 / 2251799813685248"
proof -
  have 1: "pow2 1 \<le> sqrt 13" by (simp add: pow2_def real_le_rsqrt)
  have 2: "sqrt 13 < pow2 (1 + 1)" by (simp add: pow2_def real_less_lsqrt)
  have p: "pow2 (1 - 52) = 1 / 2 ^ 51" by (simp add: pow2_def)
  have "round_half_even (sqrt 13 / pow2 (1 - 52)) = 8118979690322419"
    unfolding p using sqrt_13_bounds by (intro round_half_even_near) simp_all
  then have "f64_round (sqrt 13) = of_int 8118979690322419 * pow2 (1 - 52)"
    using 1 2 by (intro f64_round_eval) simp_all
  then show ?thesis unfolding p by simp
qed

lemma is_f64_below_sqrt_13: "is_f64 (8118979690322419 / 2251799813685248)"
  unfolding is_f64_def
  by (rule exI [of _ 8118979690322419], rule exI [of _ "- 51"]) (simp add: pow2_def)

lemma below_sqrt_13: "8118979690322419 / 2251799813685248 < sqrt 13"
  by (rule real_less_rsqrt) (simp add: power2_eq_square)

lemma floor_below_sqrt_13: "\<lfloor>8118979690322419 / 2251799813685248 :: real\<rfloor> = 3"
  by (simp add: floor_eq_iff)

lemma is_f64_three_halves: "is_f64 (3 / 2)"
  unfolding is_f64_def by (rule exI [of _ 3], rule exI [of _ "- 1"]) (simp add: pow2_def)

section \<open>Reprojection loop: each date is warped into a fresh buffer\<close>

lemma reproject_masked_eq:
  "reproject_masked resample land_mask dx dy WQ g =
     (fresh_result resample land_mask dx dy WQ,
      \<lparr>gdal_WQ_data = WQ, gdalgeo_WQ_data = ReprojectImage resample WQ (nan_array dx dy)\<rparr>)"
  by (cases g) (simp add: reproject_masked_def fresh_result_def Let_def)

lemma step_07b_saved:
  "saved (step_07b resample land_mask dx dy thr dates WQ_TS s i) =
     saved s @ (if enough_valid_07b land_mask (fresh_result resample land_mask dx dy (WQ_TS ! i)) thr
                then [(dates ! i, fresh_result resample land_mask dx dy (WQ_TS ! i))] else [])"
  by (simp add: step_07b_def reproject_masked_eq)

lemma fold_07b_saved:
  "saved (fold (\<lambda>dateind s. step_07b resample land_mask dx dy thr dates WQ_TS s dateind) [0..<k] s0) =
     saved s0 @
     map (\<lambda>i. (dates ! i, fresh_result resample land_mask dx dy (WQ_TS ! i)))
       (filter (\<lambda>i. enough_valid_07b land_mask (fresh_result resample land_mask dx dy (WQ_TS ! i)) thr)
          [0..<k])"
  by (induction k) (simp_all add: step_07b_saved)

lemma loop_07b_saved:
  "saved (loop_07b resample land_mask dx dy thr dates WQ_TS g) =
     map (\<lambda>i. (dates ! i, fresh_result resample land_mask dx dy (WQ_TS ! i)))
       (filter (\<lambda>i. enough_valid_07b land_mask (fresh_result resample land_mask dx dy (WQ_TS ! i)) thr)
          [0..<length dates])"
  by (simp add: loop_07b_def fold_07b_saved)

lemma inv_07d_step:
  assumes "inv_07d resample land_mask dx dy thr n WQ_TS k s" "k < n"
  shows "inv_07d resample land_mask dx dy thr n WQ_TS (Suc k)
           (step_07d resample land_mask dx dy thr WQ_TS s k)"
  using assms
  by (auto simp: inv_07d_def step_07d_def reproject_masked_eq nth_list_update less_Suc_eq Let_def)

lemma inv_07d_fold:
  "k \<le> n \<Longrightarrow>
   inv_07d resample land_mask dx dy thr n WQ_TS k
     (fold (\<lambda>dateind s. step_07d resample land_mask dx dy thr WQ_TS s dateind) [0..<k]
        \<lparr>gdal_07d = g, WQ_res = replicate n (nan_array dx dy), valid_dates = replicate n False\<rparr>)"
proof (induction k)
  case 0
  then show ?case by (simp add: inv_07d_def)
next
  case (Suc k)
  then show ?case by (simp add: inv_07d_step)
qed

lemma loop_07d_result:
  defines "fresh \<equiv> \<lambda>resample land_mask dx dy WQ_TS i. fresh_result resample land_mask dx dy (WQ_TS ! i)"
  shows "length (valid_dates (loop_07d resample land_mask dx dy thr n WQ_TS g)) = n"
    and "length (WQ_res (loop_07d resample land_mask dx dy thr n WQ_TS g)) = n"
    and "i < n \<Longrightarrow> valid_dates (loop_07d resample land_mask dx dy thr n WQ_TS g) ! i
            = enough_valid_07d land_mask (fresh resample land_mask dx dy WQ_TS i) thr"
    and "i < n \<Longrightarrow> WQ_res (loop_07d resample land_mask dx dy thr n WQ_TS g) ! i
            = (if enough_valid_07d land_mask (fresh resample land_mask dx dy WQ_TS i) thr
               then fresh resample land_mask dx dy WQ_TS i else nan_array dx dy)"
  using inv_07d_fold [OF le_refl, of resample land_mask dx dy thr n WQ_TS g]
  by (simp_all add: inv_07d_def loop_07d_def fresh_def)

lemma row_valid_water:
  "length (filter (\<lambda>p. \<not> isnan p) (map2 (\<lambda>l p. if l then None else p) lrow wrow))
     = length (filter (\<lambda>(l, p). \<not> l \<and> \<not> isnan p) (zip lrow wrow))"
  by (induction lrow wrow rule: list_induct2') (auto simp: isnan_def)

lemma n_valid_pix_mask_out: "n_valid_pix (mask_out land_mask W) = n_valid_water land_mask W"
proof (induction land_mask W rule: list_induct2')
  case (4 l ls w ws)
  have "n_valid_pix (mask_out (l # ls) (w # ws))
      = length (filter (\<lambda>p. \<not> isnan p) (map2 (\<lambda>l p. if l then None else p) l w))
        + n_valid_pix (mask_out ls ws)"
    by (simp add: n_valid_pix_def mask_out_def)
  also have "\<dots> = length (filter (\<lambda>(l, p). \<not> l \<and> \<not> isnan p) (zip l w)) + n_valid_water ls ws"
    by (simp only: row_valid_water 4)
  also have "\<dots> = n_valid_water (l # ls) (w # ws)"
    by (simp add: n_valid_water_def)
  finally show ?case .
qed (simp_all add: n_valid_pix_def mask_out_def n_valid_water_def)

lemma mask_out_nth:
  "r < length land_mask \<Longrightarrow> r < length W \<Longrightarrow> c < length (land_mask ! r) \<Longrightarrow> c < length (W ! r) \<Longrightarrow>
   mask_out land_mask W ! r ! c = (if land_mask ! r ! c then None else W ! r ! c)"
  by (simp add: mask_out_def)

lemma ReprojectImage_nth:
  "r < length dst \<Longrightarrow> c < length (dst ! r) \<Longrightarrow>
   ReprojectImage resample src dst ! r ! c =
     (case resample src r c of None \<Rightarrow> dst ! r ! c | Some v \<Rightarrow> v)"
  by (simp add: ReprojectImage_def split: option.split)

lemma ReprojectImage_shape:
  "length (ReprojectImage resample src dst) = length dst"
  "r < length dst \<Longrightarrow> length (ReprojectImage resample src dst ! r) = length (dst ! r)"
  by (simp_all add: ReprojectImage_def)

lemma save_results_files:
  "files (save_results valid f_name st) \<noteq> files st \<longleftrightarrow> True \<in> set valid"
proof -
  have "0 < length (filter (\<lambda>v. v) valid) \<longleftrightarrow> True \<in> set valid"
    by (auto simp: filter_empty_conv)
  then show ?thesis by (simp add: save_results_def Let_def)
qed

lemma save_results_none: "True \<notin> set valid \<Longrightarrow> save_results valid f_name st = st"
  by (auto simp: save_results_def filter_empty_conv)

lemma valid_dates_07d:
  "valid_dates (loop_07d resample land_mask dx dy thr n WQ_TS g) =
     map (\<lambda>i. enough_valid_07d land_mask (fresh_result resample land_mask dx dy (WQ_TS ! i)) thr) [0..<n]"
  by (rule nth_equalityI) (simp_all add: loop_07d_result)

lemma nan_array_nth: "r < dx \<Longrightarrow> c < dy \<Longrightarrow> nan_array dx dy ! r ! c = None"
  by (simp add: nan_array_def)

lemma nan_array_shape:
  "length (nan_array dx dy) = dx" "r < dx \<Longrightarrow> length (nan_array dx dy ! r) = dy"
  by (simp_all add: nan_array_def)

lemma fresh_example:
  "fresh_result (\<lambda>src r c. if c = 0 then Some (src ! r ! c) else None) [[False, False]] (Suc 0) 2 [[v, w]]
     = [[v, None]]"
  by (simp add: fresh_result_def mask_out_def ReprojectImage_def nan_array_def upt_conv_Cons)

lemma save_results_written:
  "True \<in> set valid \<Longrightarrow>
   files (save_results valid f_name st) =
     files st @ [\<lparr>nc_name = f_name, nc_time = select valid (exp_LS_dates st),
                  nc_data = select valid (exp_WQ_res st)\<rparr>]"
proof -
  assume "True \<in> set valid"
  then have "0 < length (filter (\<lambda>v. v) valid)" by (auto simp: filter_empty_conv)
  then show ?thesis by (simp add: save_results_def Let_def)
qed

lemma row_valid_le_water:
  "length (filter (\<lambda>(l, p). \<not> l \<and> \<not> isnan p) (zip lrow wrow)) \<le> length (filter (\<lambda>l. \<not> l) lrow)"
  by (induction lrow wrow rule: list_induct2') auto

lemma n_valid_water_le: "n_valid_water land_mask W \<le> n_water_pix land_mask"
proof (induction land_mask W rule: list_induct2')
  case (4 l ls w ws)
  have "n_valid_water (l # ls) (w # ws)
      = length (filter (\<lambda>(l, p). \<not> l \<and> \<not> isnan p) (zip l w)) + n_valid_water ls ws"
    by (simp add: n_valid_water_def)
  also have "\<dots> \<le> length (filter (\<lambda>l. \<not> l) l) + n_water_pix ls"
    using row_valid_le_water [of l w] 4 by linarith
  also have "\<dots> = n_water_pix (l # ls)" by (simp add: n_water_pix_def)
  finally show ?case .
qed (simp_all add: n_valid_water_def)

subsection \<open>The validity tests in float64\<close>

lemma is_f64_nat: "n < 2 ^ 53 \<Longrightarrow> is_f64 (real n)"
  using is_f64_int [of "int n"] by simp

lemma f64_round_nat: "n < 2 ^ 53 \<Longrightarrow> f64_round (real n) = real n"
  by (rule f64_round_id [OF is_f64_nat])

lemma hundred_bound: "n < 2 ^ 46 \<Longrightarrow> 100 * n < (2::nat) ^ 53"
proof -
  assume "n < 2 ^ 46"
  then have "100 * n < 128 * 2 ^ 46" by linarith
  also have "\<dots> = (2::nat) ^ 53" by simp
  finally show ?thesis .
qed

lemma f64_round_hundred: "n < 2 ^ 46 \<Longrightarrow> f64_round (100 * real n) = 100 * real n"
  using f64_round_nat [OF hundred_bound, of n] by simp

lemma is_f64_hundred: "n < 2 ^ 46 \<Longrightarrow> is_f64 (100 * real n)"
  using is_f64_nat [OF hundred_bound, of n] by simp

text \<open>The representable value below: subtracting a power of two that is at most \<open>r\<close> and
  more than \<open>r / 2 ^ 53\<close> from a float64 \<open>r\<close> gives a float64.\<close>

lemma is_f64_pred:
  assumes r: "is_f64 r" and lo: "pow2 d \<le> r" and hi: "r < pow2 (d + 53)" and d: "- 1074 \<le> d" "d \<le> 971"
  shows "is_f64 (r - pow2 d)"
proof -
  obtain m j where m: "\<bar>m\<bar> < 2 ^ 53" and j: "- 1074 \<le> j" "j \<le> 971" and rm: "r = of_int m * pow2 j"
    using r unfolding is_f64_def by blast
  show ?thesis
  proof (cases "d \<le> j")
    case True
    define M where "M = m * 2 ^ nat (j - d)"
    have pj: "pow2 j = of_int (2 ^ nat (j - d)) * pow2 d"
      using pow2_add [of "j - d" d] pow2_nat [of "j - d"] True by simp
    have rM: "r = of_int M * pow2 d" unfolding rm pj M_def by simp
    have "of_int M * pow2 d < 2 ^ 53 * pow2 d"
      using hi unfolding rM pow2_add [of d 53] pow2_numeral by (simp add: mult.commute)
    then have "real_of_int M < 2 ^ 53" by simp
    then have M1: "M < 2 ^ 53" by (metis of_int_less_numeral_power_cancel_iff)
    have "1 * pow2 d \<le> of_int M * pow2 d" using lo unfolding rM by simp
    then have "(1::real) \<le> of_int M" by simp
    then have M0: "1 \<le> M" by linarith
    have "\<bar>M - 1\<bar> < 2 ^ 53 \<and> - 1074 \<le> d \<and> d \<le> 971 \<and> r - pow2 d = of_int (M - 1) * pow2 d"
      using M0 M1 d unfolding rM by (simp add: algebra_simps)
    then show ?thesis unfolding is_f64_def by blast
  next
    case False
    define q :: int where "q = 2 ^ nat (d - j)"
    have pd: "pow2 d = of_int q * pow2 j"
      using pow2_add [of "d - j" j] pow2_nat [of "d - j"] False by (simp add: q_def)
    have "of_int q * pow2 j \<le> of_int m * pow2 j" using lo unfolding rm pd .
    then have "real_of_int q \<le> of_int m" by simp
    then have qm: "q \<le> m" by linarith
    have "0 < q" by (simp add: q_def)
    then have "\<bar>m - q\<bar> < 2 ^ 53" using qm m by linarith
    moreover have "r - pow2 d = of_int (m - q) * pow2 j"
      unfolding rm pd by (simp add: algebra_simps)
    ultimately show ?thesis using j unfolding is_f64_def by blast
  qed
qed

lemma f64_round_below:
  assumes r: "is_f64 r" and lo: "pow2 d \<le> r" and hi: "r < pow2 (d + 53)" and d: "- 1074 \<le> d" "d \<le> 971"
    and x: "x \<le> r - pow2 d"
  shows "f64_round x < r"
proof -
  have "f64_round x \<le> r - pow2 d" by (rule f64_round_upper [OF is_f64_pred [OF r lo hi d] x])
  then show ?thesis using pow2_pos [of d] by linarith
qed

lemma enough_07b_iff:
  assumes "0 < n_water_pix land_mask" "n_water_pix land_mask < 2 ^ 46"
  shows "enough_valid_07b land_mask (mask_out land_mask W) thr \<longleftrightarrow>
           thr \<le> f64_round (valid_percentage land_mask W)"
proof -
  have n: "n_valid_water land_mask W < 2 ^ 46"
    using n_valid_water_le [of land_mask W] assms(2) by linarith
  have w53: "n_water_pix land_mask < 2 ^ 53"
    using assms(2) power_strict_increasing [of 46 53 "2::nat"] by simp
  have n53: "n_valid_water land_mask W < 2 ^ 53"
    using n power_strict_increasing [of 46 53 "2::nat"] by simp
  show ?thesis
    using assms(1)
    by (simp add: enough_valid_07b_def Let_def n_valid_pix_mask_out valid_percentage_def
        f64_round_nat [OF w53] f64_round_nat [OF n53] f64_round_hundred [OF n])
qed

lemma enough_07d_iff:
  assumes "n_water_pix land_mask < 2 ^ 46"
  shows "enough_valid_07d land_mask (mask_out land_mask W) thr \<longleftrightarrow>
           f64_round (f64_round (real (n_water_pix land_mask) * thr) / 100)
             \<le> real (n_valid_water land_mask W)"
proof -
  have n: "n_valid_water land_mask W < 2 ^ 46"
    using n_valid_water_le [of land_mask W] assms by linarith
  have w53: "n_water_pix land_mask < 2 ^ 53"
    using assms power_strict_increasing [of 46 53 "2::nat"] by simp
  have n53: "n_valid_water land_mask W < 2 ^ 53"
    using n power_strict_increasing [of 46 53 "2::nat"] by simp
  show ?thesis
    by (simp add: enough_valid_07d_def Let_def n_valid_pix_mask_out
        f64_round_nat [OF w53] f64_round_nat [OF n53])
qed

text \<open>A fraction that meets the threshold passes both tests.\<close>

lemma enough_07b_exact:
  assumes "0 < n_water_pix land_mask" "n_water_pix land_mask < 2 ^ 46" "is_f64 thr"
    and "thr \<le> valid_percentage land_mask W"
  shows "enough_valid_07b land_mask (mask_out land_mask W) thr"
  unfolding enough_07b_iff [OF assms(1,2)] by (rule f64_round_lower [OF assms(3,4)])

lemma enough_07d_exact:
  assumes w: "0 < n_water_pix land_mask" "n_water_pix land_mask < 2 ^ 46"
    and le: "thr \<le> valid_percentage land_mask W"
  shows "enough_valid_07d land_mask (mask_out land_mask W) thr"
proof -
  have n: "n_valid_water land_mask W < 2 ^ 46"
    using n_valid_water_le [of land_mask W] w(2) by linarith
  have n53: "n_valid_water land_mask W < 2 ^ 53"
    using n power_strict_increasing [of 46 53 "2::nat"] by simp
  have "real (n_water_pix land_mask) * thr \<le> 100 * real (n_valid_water land_mask W)"
    using le w(1) by (simp add: valid_percentage_def field_simps)
  then have "f64_round (real (n_water_pix land_mask) * thr) \<le> 100 * real (n_valid_water land_mask W)"
    by (rule f64_round_upper [OF is_f64_hundred [OF n]])
  then have "f64_round (real (n_water_pix land_mask) * thr) / 100 \<le> real (n_valid_water land_mask W)"
    by simp
  then have "f64_round (f64_round (real (n_water_pix land_mask) * thr) / 100)
               \<le> real (n_valid_water land_mask W)"
    by (rule f64_round_upper [OF is_f64_nat [OF n53]])
  then show ?thesis unfolding enough_07d_iff [OF w(2)] .
qed

text \<open>One valid pixel less than a raster whose fraction is the threshold: both tests fail.\<close>

lemma enough_07b_one_below:
  assumes w: "0 < n_water_pix land_mask" "n_water_pix land_mask < 2 ^ 46" and thr: "is_f64 thr"
    and eq: "valid_percentage land_mask W = thr"
    and one: "n_valid_water land_mask W' + 1 = n_valid_water land_mask W"
  shows "\<not> enough_valid_07b land_mask (mask_out land_mask W') thr"
proof -
  let ?w = "real (n_water_pix land_mask)"
  let ?n = "real (n_valid_water land_mask W)"
  have w0: "0 < ?w" using w(1) by simp
  have wle: "?w \<le> 2 ^ 46" using w(2) by (metis less_imp_le of_nat_le_numeral_power_cancel_iff)
  have nle: "?n \<le> ?w" using n_valid_water_le [of land_mask W] by simp
  have n1: "1 \<le> ?n" using one by linarith
  have t: "thr = 100 * ?n / ?w" using eq by (simp add: valid_percentage_def)
  have p: "pow2 (- 46) = 1 / 2 ^ 46" by (simp add: pow2_def)
  have step: "pow2 (- 46) \<le> 100 / ?w"
  proof -
    have "1 / 2 ^ 46 \<le> 1 / ?w" using w0 wle by (intro divide_left_mono) simp_all
    also have "\<dots> \<le> 100 / ?w" using w0 by (intro divide_right_mono) simp_all
    finally show ?thesis unfolding p .
  qed
  have "100 / ?w \<le> 100 * ?n / ?w" using n1 w0 by (intro divide_right_mono) simp_all
  then have lo: "pow2 (- 46) \<le> thr" using step unfolding t by linarith
  have "100 * ?n / ?w \<le> 100" using nle w0 by (simp add: field_simps)
  then have hi: "thr < pow2 (- 46 + 53)" unfolding t by (simp add: pow2_def)
  have "valid_percentage land_mask W' = thr - 100 / ?w"
    using one w0 unfolding t valid_percentage_def
    by (simp add: field_simps of_nat_add [symmetric] del: of_nat_add)
  then have "valid_percentage land_mask W' \<le> thr - pow2 (- 46)" using step by linarith
  then have "f64_round (valid_percentage land_mask W') < thr"
    by (intro f64_round_below [OF thr lo hi]) simp_all
  then show ?thesis unfolding enough_07b_iff [OF w] by simp
qed

lemma enough_07d_one_below:
  assumes w: "0 < n_water_pix land_mask" "n_water_pix land_mask < 2 ^ 46"
    and eq: "valid_percentage land_mask W = thr"
    and one: "n_valid_water land_mask W' + 1 = n_valid_water land_mask W"
  shows "\<not> enough_valid_07d land_mask (mask_out land_mask W') thr"
proof -
  have n: "n_valid_water land_mask W < 2 ^ 46"
    using n_valid_water_le [of land_mask W] w(2) by linarith
  have n53: "n_valid_water land_mask W < 2 ^ 53"
    using n power_strict_increasing [of 46 53 "2::nat"] by simp
  have "real (n_water_pix land_mask) * thr = 100 * real (n_valid_water land_mask W)"
    using eq w(1) by (simp add: valid_percentage_def field_simps)
  then have "f64_round (f64_round (real (n_water_pix land_mask) * thr) / 100)
               = real (n_valid_water land_mask W)"
    by (simp add: f64_round_hundred [OF n] f64_round_nat [OF n53])
  moreover have "real (n_valid_water land_mask W') < real (n_valid_water land_mask W)"
    using one by linarith
  ultimately show ?thesis unfolding enough_07d_iff [OF w(2)] by simp
qed

text \<open>
  A mask without any water pixel: the percentage is undefined. The test of 07b is then
  False for every date (the quotient is NaN) and the test of 07d is True for every date
  (\<open>pix_thr\<close> is 0).
\<close>

lemma enough_valid_no_water:
  assumes "n_water_pix land_mask = 0"
  shows "\<not> enough_valid_07b land_mask (mask_out land_mask W) thr"
    and "enough_valid_07d land_mask (mask_out land_mask W) thr"
proof -
  have "n_valid_pix (mask_out land_mask W) = 0"
    using n_valid_water_le [of land_mask W] assms by (simp add: n_valid_pix_mask_out)
  then show "\<not> enough_valid_07b land_mask (mask_out land_mask W) thr"
    and "enough_valid_07d land_mask (mask_out land_mask W) thr"
    using assms by (simp_all add: enough_valid_07b_def enough_valid_07d_def)
qed

text \<open>The counts as numbers of pixels.\<close>

lemma n_water_pix_card:
  "n_water_pix land_mask =
     card {(r, c). r < length land_mask \<and> c < length (land_mask ! r) \<and> \<not> land_mask ! r ! c}"
proof -
  have "n_water_pix land_mask =
      (\<Sum>r = 0..<length land_mask. card {c. c < length (land_mask ! r) \<and> \<not> land_mask ! r ! c})"
    by (simp add: n_water_pix_def sum_list_sum_nth length_filter_conv_card)
  also have "\<dots> = card (SIGMA r:{0..<length land_mask}. {c. c < length (land_mask ! r) \<and> \<not> land_mask ! r ! c})"
    by (subst card_SigmaI) simp_all
  also have "(SIGMA r:{0..<length land_mask}. {c. c < length (land_mask ! r) \<and> \<not> land_mask ! r ! c})
      = {(r, c). r < length land_mask \<and> c < length (land_mask ! r) \<and> \<not> land_mask ! r ! c}"
    by auto
  finally show ?thesis .
qed

lemma n_valid_water_card:
  "n_valid_water land_mask W =
     card {(r, c). r < length land_mask \<and> r < length W \<and>
                   c < length (land_mask ! r) \<and> c < length (W ! r) \<and>
                   \<not> land_mask ! r ! c \<and> W ! r ! c \<noteq> None}"
proof -
  let ?B = "\<lambda>r. {c. c < length (land_mask ! r) \<and> c < length (W ! r) \<and>
                   \<not> land_mask ! r ! c \<and> W ! r ! c \<noteq> None}"
  have row: "length (filter (\<lambda>(l, p). \<not> l \<and> \<not> isnan p) (zip lrow wrow))
      = card {c. c < length lrow \<and> c < length wrow \<and> \<not> lrow ! c \<and> wrow ! c \<noteq> None}" for lrow wrow
  proof -
    have "{i. i < length (zip lrow wrow) \<and> (case zip lrow wrow ! i of (l, p) \<Rightarrow> \<not> l \<and> \<not> isnan p)}
        = {c. c < length lrow \<and> c < length wrow \<and> \<not> lrow ! c \<and> wrow ! c \<noteq> None}"
      by (auto simp: isnan_def)
    then show ?thesis by (simp only: length_filter_conv_card)
  qed
  have "n_valid_water land_mask W = (\<Sum>r = 0..<min (length land_mask) (length W). card (?B r))"
    by (simp add: n_valid_water_def sum_list_sum_nth row)
  also have "\<dots> = card (SIGMA r:{0..<min (length land_mask) (length W)}. ?B r)"
    by (subst card_SigmaI) simp_all
  also have "(SIGMA r:{0..<min (length land_mask) (length W)}. ?B r)
      = {(r, c). r < length land_mask \<and> r < length W \<and>
                   c < length (land_mask ! r) \<and> c < length (W ! r) \<and>
                   \<not> land_mask ! r ! c \<and> W ! r ! c \<noteq> None}"
    by auto
  finally show ?thesis .
qed

lemma f64_hundred_thirds: "f64_round (100 / 3) = 4691249611844267 / 140737488355328"
proof -
  have p: "pow2 (5 - 52) = 1 / 2 ^ 47" by (simp add: pow2_def)
  have "round_half_even (100 / 3 / pow2 (5 - 52)) = 4691249611844267"
    unfolding p by (rule round_half_even_near) simp_all
  then have "f64_round (100 / 3) = of_int 4691249611844267 * pow2 (5 - 52)"
    by (intro f64_round_eval) (simp_all add: pow2_def)
  then show ?thesis unfolding p by simp
qed

lemma f64_three_thirds: "f64_round (3 * (4691249611844267 / 140737488355328)) = 100"
proof -
  let ?x = "3 * (4691249611844267 / 140737488355328) :: real"
  have p: "pow2 (6 - 52) = 1 / 2 ^ 46" by (simp add: pow2_def)
  have "?x / pow2 (6 - 52) = of_int 7036874417766400 + 1 / 2" unfolding p by simp
  then have "round_half_even (?x / pow2 (6 - 52)) = (if even (7036874417766400::int) then 7036874417766400 else 7036874417766400 + 1)"
    by (rule round_half_even_tie)
  then have "round_half_even (?x / pow2 (6 - 52)) = 7036874417766400" by simp
  then have "f64_round ?x = of_int 7036874417766400 * pow2 (6 - 52)"
    by (intro f64_round_eval) (simp_all add: pow2_def)
  then show ?thesis unfolding p by simp
qed

lemma f64_round_one [simp]: "f64_round 1 = 1"
  using f64_round_int [of 1] by simp

text \<open>
  The two tests are not the same predicate. With 33 of 375 water pixels valid and the
  threshold \<open>8.8\<close> (the float64 nearest to it, which lies above 8.8), 07b computes
  \<open>100.0*33/375 = 8.8\<close> and keeps the date, while 07d computes
  \<open>pix_thr = 33.00000000000001\<close> and drops it.
\<close>

lemma validity_tests_differ:
  "enough_valid_07b [replicate 375 False] [replicate 33 (Some 1) @ replicate 342 None]
     (2476979795053773 / 281474976710656) \<and>
   \<not> enough_valid_07d [replicate 375 False] [replicate 33 (Some 1) @ replicate 342 None]
     (2476979795053773 / 281474976710656)"
proof -
  let ?t = "2476979795053773 / 281474976710656 :: real"
  have w: "n_water_pix [replicate 375 False] = 375" by (simp add: n_water_pix_def)
  have n: "n_valid_pix [replicate 33 (Some 1) @ replicate 342 None] = 33"
    by (simp add: n_valid_pix_def isnan_def)
  have i: "f64_round (real (33::nat)) = 33" "f64_round (real (375::nat)) = 375"
    "f64_round (100 * 33) = 3300"
    using f64_round_int [of 33] f64_round_int [of 375] f64_round_int [of 3300] by simp_all
  have p3: "pow2 (3 - 52) = 1 / 2 ^ 49" by (simp add: pow2_def)
  have "round_half_even (3300 / 375 / pow2 (3 - 52)) = 4953959590107546"
    unfolding p3 by (rule round_half_even_near) simp_all
  then have "f64_round (3300 / 375) = of_int 4953959590107546 * pow2 (3 - 52)"
    by (intro f64_round_eval) (simp_all add: pow2_def)
  then have q: "f64_round (3300 / 375) = ?t" unfolding p3 by simp
  have "f64_round (f64_round (100 * f64_round (real (33::nat))) / f64_round (real (375::nat))) = ?t"
    by (simp only: i q)
  then have b: "enough_valid_07b [replicate 375 False] [replicate 33 (Some 1) @ replicate 342 None] ?t"
    unfolding enough_valid_07b_def Let_def w n by simp
  have p11: "pow2 (11 - 52) = 1 / 2 ^ 41" by (simp add: pow2_def)
  have "round_half_even (375 * ?t / pow2 (11 - 52)) = 7256776743321601"
    unfolding p11 by (rule round_half_even_near) simp_all
  then have "f64_round (375 * ?t) = of_int 7256776743321601 * pow2 (11 - 52)"
    by (intro f64_round_eval) (simp_all add: pow2_def)
  then have m: "f64_round (375 * ?t) = 7256776743321601 / 2199023255552" unfolding p11 by simp
  have p5: "pow2 (5 - 52) = 1 / 2 ^ 47" by (simp add: pow2_def)
  have "round_half_even (7256776743321601 / 2199023255552 / 100 / pow2 (5 - 52)) = 4644337115725825"
    unfolding p5 by (rule round_half_even_near) simp_all
  then have "f64_round (7256776743321601 / 2199023255552 / 100) = of_int 4644337115725825 * pow2 (5 - 52)"
    by (intro f64_round_eval) (simp_all add: pow2_def)
  then have r: "f64_round (7256776743321601 / 2199023255552 / 100) = 4644337115725825 / 140737488355328"
    unfolding p5 by simp
  have "f64_round (f64_round (f64_round (real (375::nat)) * ?t) / 100) = 4644337115725825 / 140737488355328"
    by (simp only: i m r)
  then have d: "\<not> enough_valid_07d [replicate 375 False] [replicate 33 (Some 1) @ replicate 342 None] ?t"
    unfolding enough_valid_07d_def Let_def w n i by simp
  show ?thesis using b d by simp
qed

lemma enough_example: "enough_valid_07b [[False, False]] [[Some v, None]] 50"
proof -
  have i: "f64_round 2 = 2" "f64_round 100 = 100" "f64_round 50 = 50"
    using f64_round_int [of 2] f64_round_int [of 100] f64_round_int [of 50] by simp_all
  show ?thesis
    by (simp add: enough_valid_07b_def n_water_pix_def n_valid_pix_def isnan_def i)
qed

section \<open>Claims on the date deduplication\<close>

text \<open>
  C1 (amended). For every sequence of (date, raster) pairs the deduplication cell computes the
  scan in which each first occurrence of a date stays at its position, every later entry of
  that date is merged into it by \<open>resolve_pair\<close> and then removed. \<open>resolve_pair\<close> is the
  four-way rule with the tie on the other side: a later raster without missing pixels
  replaces the earlier one; else an earlier raster without missing pixels is kept; else, when
  the later raster has fewer or equally many missing pixels, the later raster filled from the
  earlier one is stored; else (the earlier raster has strictly fewer) the earlier raster
  filled from the later one is stored.
\<close>

theorem dedup_resolves_by_rule: "dedup xs = dedup_rule resolve_pair xs"
  by (rule dedup_eq_rule)

text \<open>
  C1 as stated fails on equal counts: two rasters of one date with one missing pixel each.
  The code stores the later raster (filled from the earlier one, which changes nothing
  here); the stated rule would store the earlier raster.
\<close>

theorem dedup_tie_counterexample:
  "dedup [(''1992-03-01'', [[None, Some 1]]), (''1992-03-01'', [[None, Some 2]])]
     = [(''1992-03-01'', [[None, Some 2]])] \<and>
   dedup_rule resolve_spec [(''1992-03-01'', [[None, Some 1]]), (''1992-03-01'', [[None, Some 2]])]
     = [(''1992-03-01'', [[None, Some 1]])]"
  by (simp add: dedup_def dedup_loop_def dedup_step_def select_not_def n_nans_def
      fill_nans_def isnan_def Let_def resolve_spec_def)

text \<open>
  C2 (amended). In an iteration of the loop that finds a duplicate, with \<open>e\<close> the raster at
  \<open>dup_ind\<close> and \<open>l\<close> the raster at \<open>ind\<close>, both with at least one missing pixel: at a pixel
  where both hold a value, the raster left at \<open>dup_ind\<close> holds the value of \<open>e\<close> when \<open>e\<close> has
  strictly fewer missing pixels than \<open>l\<close>, and the value of \<open>l\<close> otherwise. The raster with
  fewer gaps is the base of the merge, the later one on a tie; the other one only fills gaps.
\<close>

theorem merge_keeps_base_value:
  assumes dup: "filter (\<lambda>i. dates ! i = dates ! ind) [0..<ind] \<noteq> []"
    and dup_ind: "dup_ind = hd (filter (\<lambda>i. dates ! i = dates ! ind) [0..<ind])"
    and ind: "ind < length (WQ_TS_arr s)"
    and e: "e = WQ_TS_arr s ! dup_ind" and l: "l = WQ_TS_arr s ! ind"
    and nans: "n_nans e \<noteq> 0" "n_nans l \<noteq> 0"
    and shape: "r < length e" "r < length l" "c < length (e ! r)" "c < length (l ! r)"
    and both: "e ! r ! c = Some v" "l ! r ! c = Some w"
  shows "WQ_TS_arr (dedup_step dates s ind) ! dup_ind ! r ! c
           = (if n_nans e < n_nans l then Some v else Some w)"
proof -
  have nf: "\<not> first_seen dates ind" using dup by (simp add: first_seen_def)
  have "WQ_TS_arr (dedup_step dates s ind) ! dup_ind = resolve_pair e l"
    unfolding e l by (rule dedup_step_dup(3) [OF nf dup_ind ind])
  also have "\<dots> = (if n_nans e < n_nans l then fill_nans e l else fill_nans l e)"
    using nans by (auto simp: resolve_pair_def)
  finally show ?thesis
    using shape both by (simp add: fill_nans_nth isnan_def)
qed

theorem merge_keeps_base_value_witness:
  "WQ_TS_arr (dedup_step [''1992-03-01'', ''1992-03-01'']
      \<lparr>WQ_TS_arr = [[[None, Some 1, None]], [[None, Some 2, Some 3]]],
       rem_ind = [False, False]\<rparr> 1) ! 0 ! 0 ! 1
    = Some 2"
  using merge_keeps_base_value [of "[''1992-03-01'', ''1992-03-01'']" 1 0
      "\<lparr>WQ_TS_arr = [[[None, Some 1, None]], [[None, Some 2, Some 3]]],
        rem_ind = [False, False]\<rparr>"
      "[[None, Some 1, None]]" "[[None, Some 2, Some 3]]" 0 1 1 2]
  by (simp add: n_nans_def isnan_def)

text \<open>
  C2 as stated fails when the later raster has fewer missing pixels: both rasters below have
  gaps and both hold a value at pixel (0, 2), the earlier one 1 and the later one 2; the
  merged raster holds 2 there.
\<close>

theorem merge_earlier_priority_counterexample:
  "n_nans [[None, None, Some 1]] \<noteq> 0 \<and> n_nans [[None, Some 5, Some 2]] \<noteq> 0 \<and>
   [[None, None, Some (1::real)]] ! 0 ! 2 = Some 1 \<and>
   [[None, Some 5, Some (2::real)]] ! 0 ! 2 = Some 2 \<and>
   dedup [(''1992-03-01'', [[None, None, Some 1]]), (''1992-03-01'', [[None, Some 5, Some 2]])]
     = [(''1992-03-01'', [[None, Some 5, Some 2]])]"
  by (simp add: dedup_def dedup_loop_def dedup_step_def select_not_def n_nans_def
      fill_nans_def isnan_def Let_def)

text \<open>
  C3. When exactly two entries share a date (all other dates are pairwise different and
  different from it) and exactly one of the two rasters has no missing pixel, the
  deduplication leaves that raster at the earlier entry's position, removes the later entry
  and changes nothing else.
\<close>

theorem dedup_one_valid_duplicate:
  assumes "distinct (d # map fst (pre @ mid @ post))"
    and "(n_nans e = 0) \<noteq> (n_nans l = 0)"
  shows "dedup (pre @ (d, e) # mid @ (d, l) # post)
           = pre @ (d, if n_nans e = 0 then e else l) # mid @ post"
  using assms(2) unfolding dedup_eq_rule dedup_rule_one_dup [OF assms(1)]
  by (auto simp: resolve_pair_def)

text \<open>The end-to-end case of C3: a stack of two entries of one date, the first all
  missing and the second fully valid, becomes the single fully valid entry of that date.\<close>

theorem dedup_one_valid_duplicate_witness:
  "dedup [(''1992-03-01'', [[None, None], [None, None]]),
          (''1992-03-01'', [[Some 1, Some 2], [Some 3, Some 4]])]
     = [(''1992-03-01'', [[Some 1, Some 2], [Some 3, Some 4]])]"
  using dedup_one_valid_duplicate [of "''1992-03-01''" "[]" "[]" "[]"
      "[[None, None], [None, None]]" "[[Some 1, Some 2], [Some 3, Some 4]]"]
  by (simp add: n_nans_def isnan_def)

text \<open>C4. Deduplication is idempotent: applied to its own output it changes nothing.\<close>

theorem dedup_idempotent: "dedup (dedup xs) = dedup xs"
  by (simp add: dedup_eq_rule dedup_rule_id dedup_rule_distinct_dates)

section \<open>Claims on the water mask\<close>

text \<open>
  C5. Mask expansion is monotone in the buffer distance: for \<open>0 \<le> b \<le> b'\<close> both calls of
  \<open>expand_mask\<close> return a mask of the shape of the input, and every pixel that is land at
  buffer \<open>b\<close> is land at buffer \<open>b'\<close>.
\<close>

theorem expand_mask_monotone:
  assumes "0 \<le> b" and "b \<le> b'"
  shows "\<exists>out out'. expand_mask m b = Inr out \<and> expand_mask m b' = Inr out' \<and>
           length out = length m \<and> length out' = length m \<and>
           (\<forall>r<length m. length (out ! r) = length (m ! r) \<and> length (out' ! r) = length (m ! r) \<and>
              (\<forall>c<length (m ! r). out ! r ! c \<longrightarrow> out' ! r ! c))"
proof -
  have b': "0 \<le> b'" using assms by simp
  obtain out where out: "expand_mask m b = Inr out" "length out = length m"
      "\<forall>r<length m. length (out ! r) = length (m ! r)"
    using expand_mask_Inr [OF assms(1), of m] by blast
  obtain out' where out': "expand_mask m b' = Inr out'" "length out' = length m"
      "\<forall>r<length m. length (out' ! r) = length (m ! r)"
    using expand_mask_Inr [OF b', of m] by blast
  have "out' ! r ! c" if r: "r < length m" and c: "c < length (m ! r)" and o: "out ! r ! c" for r c
  proof -
    have "out ! r ! c \<longleftrightarrow> (\<exists>r' c'. r' < length m \<and> c' < length (m ! r') \<and> m ! r' ! c' \<and>
                      in_kernel b (int r - int r') (int c - int c'))"
      using expand_mask_nth [OF assms(1) r c] out(1) by auto
    then obtain r' c' where rc: "r' < length m" "c' < length (m ! r')" "m ! r' ! c'"
      "in_kernel b (int r - int r') (int c - int c')" using o by blast
    have "in_kernel b' (int r - int r') (int c - int c')"
      by (rule in_kernel_mono [OF rc(4) assms(2)])
    moreover have "out' ! r ! c \<longleftrightarrow> (\<exists>r' c'. r' < length m \<and> c' < length (m ! r') \<and> m ! r' ! c' \<and>
                      in_kernel b' (int r - int r') (int c - int c'))"
      using expand_mask_nth [OF b' r c] out'(1) by auto
    ultimately show ?thesis using rc by blast
  qed
  then show ?thesis using out out' by blast
qed

theorem expand_mask_monotone_witness:
  "(0::real) \<le> 1 \<and> (1::real) \<le> 3 / 2 \<and>
   (\<exists>out out'. expand_mask [[True, False], [False, False]] 1 = Inr out \<and>
      expand_mask [[True, False], [False, False]] (3 / 2) = Inr out' \<and>
      length out = 2 \<and> length out' = 2 \<and> out ! 0 ! 1 \<and> out' ! 0 ! 1)"
proof -
  have h: "(0::real) \<le> 1" "(1::real) \<le> 3 / 2" by simp_all
  from expand_mask_monotone [OF h, of "[[True, False], [False, False]]"]
  obtain out out' where o: "expand_mask [[True, False], [False, False]] 1 = Inr out"
     "expand_mask [[True, False], [False, False]] (3 / 2) = Inr out'"
     "length out = 2" "length out' = 2"
     and sub: "\<forall>r<2. \<forall>c<length ([[True, False], [False, False]] ! r). out ! r ! c \<longrightarrow> out' ! r ! c"
    by auto
  have "out ! 0 ! 1 \<longleftrightarrow> (\<exists>r' c'. r' < length [[True, False], [False, False]] \<and>
          c' < length ([[True, False], [False, False]] ! r') \<and>
          [[True, False], [False, False]] ! r' ! c' \<and> in_kernel 1 (int 0 - int r') (int 1 - int c'))"
    using expand_mask_nth [OF h(1), of 0 "[[True, False], [False, False]]" 1] o(1) by auto
  moreover have "in_kernel 1 0 1"
    using in_kernel_f64_dist [of 1 0 1] f64_round_int [of 1] by (simp add: f64_dist_def)
  then have "\<exists>r' c'. r' < length [[True, False], [False, False]] \<and>
          c' < length ([[True, False], [False, False]] ! r') \<and>
          [[True, False], [False, False]] ! r' ! c' \<and> in_kernel 1 (int 0 - int r') (int 1 - int c')"
    by (intro exI [of _ 0]) simp
  ultimately have a: "out ! 0 ! 1" by simp
  then have "out' ! 0 ! 1" using sub by simp
  then show ?thesis using o h a by blast
qed

text \<open>
  C6. For a float64 buffer distance \<open>0 \<le> npix < 2 ^ 26\<close> the structuring element that
  \<open>expand_mask\<close> builds holds exactly the integer offsets \<open>(dx, dy)\<close> from its centre whose
  distance as \<open>pdist\<close> computes it, the float64 nearest to \<open>sqrt (dx\<^sup>2 + dy\<^sup>2)\<close>, is at most
  \<open>npix\<close>: such an offset lies inside the box of half-width \<open>floor(npix)\<close> and is set, and no
  other entry of the box is set. Every offset whose Euclidean distance is at most \<open>npix\<close> is
  among them. A pixel of the result is land exactly when some land pixel of the input lies
  at such an offset from it.
\<close>

theorem expand_mask_float64_disk:
  assumes f: "is_f64 npix" and npix: "0 \<le> npix" and small: "npix < 2 ^ 26"
  shows "(\<forall>dx dy. (\<bar>dx\<bar> \<le> \<lfloor>npix\<rfloor> \<and> \<bar>dy\<bar> \<le> \<lfloor>npix\<rfloor> \<and>
              build_struc npix \<lfloor>npix\<rfloor> (nat (\<lfloor>npix\<rfloor> * 2 + 1))
                ! nat (\<lfloor>npix\<rfloor> + dx) ! nat (\<lfloor>npix\<rfloor> + dy))
            = (f64_dist dx dy \<le> npix)) \<and>
         (\<forall>dx dy. sqrt (of_int (dx\<^sup>2 + dy\<^sup>2)) \<le> npix \<longrightarrow> f64_dist dx dy \<le> npix) \<and>
         (\<forall>r c. r < length m \<longrightarrow> c < length (m ! r) \<longrightarrow>
            (\<exists>out. expand_mask m npix = Inr out \<and> length out = length m \<and>
               length (out ! r) = length (m ! r) \<and>
               (out ! r ! c \<longleftrightarrow>
                 (\<exists>r' c'. r' < length m \<and> c' < length (m ! r') \<and> m ! r' ! c' \<and>
                      f64_dist (int r - int r') (int c - int c') \<le> npix))))"
proof (intro conjI allI impI)
  fix dx dy :: int
  show "(\<bar>dx\<bar> \<le> \<lfloor>npix\<rfloor> \<and> \<bar>dy\<bar> \<le> \<lfloor>npix\<rfloor> \<and>
              build_struc npix \<lfloor>npix\<rfloor> (nat (\<lfloor>npix\<rfloor> * 2 + 1))
                ! nat (\<lfloor>npix\<rfloor> + dx) ! nat (\<lfloor>npix\<rfloor> + dy))
            = (f64_dist dx dy \<le> npix)"
    unfolding build_struc_kernel [OF npix] by (rule in_kernel_f64_dist [OF npix small])
next
  fix dx dy :: int
  assume "sqrt (of_int (dx\<^sup>2 + dy\<^sup>2)) \<le> npix"
  then show "f64_dist dx dy \<le> npix"
    unfolding f64_dist_def by (rule f64_round_upper [OF f])
next
  fix r c assume rc: "r < length m" "c < length (m ! r)"
  show "\<exists>out. expand_mask m npix = Inr out \<and> length out = length m \<and>
               length (out ! r) = length (m ! r) \<and>
               (out ! r ! c \<longleftrightarrow>
                 (\<exists>r' c'. r' < length m \<and> c' < length (m ! r') \<and> m ! r' ! c' \<and>
                      f64_dist (int r - int r') (int c - int c') \<le> npix))"
    using expand_mask_nth [OF npix rc]
    unfolding in_kernel_f64_dist [OF npix small] .
qed

text \<open>An instance: at \<open>npix = 1.5\<close> the diagonal offset \<open>(1, 1)\<close> is in the kernel, and the
  neighbour of a land pixel becomes land.\<close>

theorem expand_mask_float64_disk_witness:
  "is_f64 (3 / 2) \<and> (0::real) \<le> 3 / 2 \<and> (3 / 2 :: real) < 2 ^ 26 \<and>
   build_struc (3 / 2) \<lfloor>3 / 2 :: real\<rfloor> (nat (\<lfloor>3 / 2 :: real\<rfloor> * 2 + 1))
     ! nat (\<lfloor>3 / 2 :: real\<rfloor> + 1) ! nat (\<lfloor>3 / 2 :: real\<rfloor> + 1) \<and>
   (\<exists>out. expand_mask [[True, False, False]] (3 / 2) = Inr out \<and> out ! 0 ! 1)"
proof -
  have h: "(0::real) \<le> 3 / 2" "(3 / 2 :: real) < 2 ^ 26" by simp_all
  note t = expand_mask_float64_disk [OF is_f64_three_halves h, of "[[True, False, False]]"]
  have s2: "sqrt (real_of_int (1\<^sup>2 + 1\<^sup>2)) \<le> 3 / 2"
    by (rule real_le_lsqrt) (simp_all add: power2_eq_square)
  have "f64_dist 1 1 \<le> 3 / 2"
    using t [THEN conjunct2, THEN conjunct1, rule_format, OF s2] .
  then have k1: "build_struc (3 / 2) \<lfloor>3 / 2 :: real\<rfloor> (nat (\<lfloor>3 / 2 :: real\<rfloor> * 2 + 1))
     ! nat (\<lfloor>3 / 2 :: real\<rfloor> + 1) ! nat (\<lfloor>3 / 2 :: real\<rfloor> + 1)"
    using t [THEN conjunct1, rule_format, of 1 1] by blast
  have s1: "sqrt (real_of_int (0\<^sup>2 + 1\<^sup>2)) \<le> 3 / 2" by simp
  have d1: "f64_dist 0 1 \<le> 3 / 2"
    using t [THEN conjunct2, THEN conjunct1, rule_format, OF s1] .
  obtain out where o: "expand_mask [[True, False, False]] (3 / 2) = Inr out"
    and o1: "out ! 0 ! 1 \<longleftrightarrow> (\<exists>r' c'. r' < length [[True, False, False]] \<and>
        c' < length ([[True, False, False]] ! r') \<and> [[True, False, False]] ! r' ! c' \<and>
        f64_dist (int 0 - int r') (int 1 - int c') \<le> 3 / 2)"
    using t [THEN conjunct2, THEN conjunct2, rule_format, of 0 1] by auto
  have "out ! 0 ! 1"
    unfolding o1 using d1 by (intro exI [of _ 0]) simp
  then show ?thesis using o k1 h is_f64_three_halves by blast
qed

text \<open>
  The kernel is not the exact Euclidean disk. The float64 just below \<open>sqrt 13\<close> is
  \<open>8118979690322419 / 2 ^ 51 = 3.605551275463989\<close>, and it is also what the float64 square
  root of 13 returns. At this buffer distance the offset \<open>(2, 3)\<close>, at Euclidean distance
  \<open>sqrt 13 > npix\<close>, is in the kernel (entry \<open>(5, 6)\<close> of the 7 by 7 array), and the pixel
  \<open>(2, 3)\<close> of a mask whose only land pixel is \<open>(0, 0)\<close> becomes land.
\<close>

theorem expand_mask_exact_disk_counterexample:
  "is_f64 (8118979690322419 / 2251799813685248) \<and>
   (0::real) \<le> 8118979690322419 / 2251799813685248 \<and>
   8118979690322419 / 2251799813685248 < sqrt (real_of_int (2\<^sup>2 + 3\<^sup>2)) \<and>
   \<lfloor>8118979690322419 / 2251799813685248 :: real\<rfloor> = 3 \<and>
   build_struc (8118979690322419 / 2251799813685248) 3 7 ! 5 ! 6 \<and>
   (\<exists>out. expand_mask [[True, False, False, False], [False, False, False, False],
                         [False, False, False, False]]
             (8118979690322419 / 2251799813685248) = Inr out \<and> out ! 2 ! 3)"
proof -
  let ?p = "8118979690322419 / 2251799813685248 :: real"
  let ?m = "[[True, False, False, False], [False, False, False, False],
             [False, False, False, False]]"
  have p0: "0 \<le> ?p" and small: "?p < 2 ^ 26" by simp_all
  have d: "f64_dist 2 3 \<le> ?p" by (simp add: f64_dist_def f64_sqrt_13)
  then have k: "in_kernel ?p 2 3" by (simp only: in_kernel_f64_dist [OF p0 small])
  have "build_struc ?p \<lfloor>?p\<rfloor> (nat (\<lfloor>?p\<rfloor> * 2 + 1)) ! nat (\<lfloor>?p\<rfloor> + 2) ! nat (\<lfloor>?p\<rfloor> + 3)"
    using k build_struc_kernel [OF p0, of 2 3] by blast
  then have entry: "build_struc ?p 3 7 ! 5 ! 6"
    unfolding floor_below_sqrt_13 by simp
  obtain out where o: "expand_mask ?m ?p = Inr out"
    and o1: "out ! 2 ! 3 \<longleftrightarrow> (\<exists>r' c'. r' < length ?m \<and> c' < length (?m ! r') \<and> ?m ! r' ! c' \<and>
        in_kernel ?p (int 2 - int r') (int 3 - int c'))"
    using expand_mask_nth [OF p0, of 2 ?m 3] by auto
  have "out ! 2 ! 3"
    unfolding o1 by (rule exI [of _ 0], rule exI [of _ 0]) (simp add: k)
  then show ?thesis
    using o entry is_f64_below_sqrt_13 below_sqrt_13 floor_below_sqrt_13 p0 by simp
qed

text \<open>
  C10. A pixel of the thresholded mask is land exactly when its water-occurrence value is
  a number less than or equal to the threshold. In particular a value equal to the
  threshold is land; it stays land under every expansion with a buffer \<open>\<ge> 0\<close>, and the
  masked water-quality raster is NaN there.
\<close>

theorem threshold_boundary_is_land:
  assumes r: "r < length W" and c: "c < length (W ! r)"
  shows "(threshold_mask W thr ! r ! c \<longleftrightarrow> (\<exists>v. W ! r ! c = Some v \<and> v \<le> thr)) \<and>
         (W ! r ! c = Some thr \<longrightarrow>
            threshold_mask W thr ! r ! c \<and>
            (\<forall>buffer. 0 \<le> buffer \<longrightarrow>
               (\<exists>land. make_land_mask W thr buffer = Inr land \<and> land ! r ! c \<and>
                  (\<forall>WQ. r < length WQ \<longrightarrow> c < length (WQ ! r) \<longrightarrow>
                     mask_out land WQ ! r ! c = None))))"
proof -
  let ?T = "threshold_mask W thr"
  have iff: "?T ! r ! c \<longleftrightarrow> (\<exists>v. W ! r ! c = Some v \<and> v \<le> thr)"
    using r c by (simp add: threshold_mask_def le_thr_def split: option.split)
  have shape: "r < length ?T" "c < length (?T ! r)"
    using r c by (simp_all add: threshold_mask_def)
  have "\<exists>land. make_land_mask W thr buffer = Inr land \<and> land ! r ! c \<and>
          (\<forall>WQ. r < length WQ \<longrightarrow> c < length (WQ ! r) \<longrightarrow> mask_out land WQ ! r ! c = None)"
    if eq: "W ! r ! c = Some thr" and buf: "0 \<le> buffer" for buffer
  proof -
    obtain land where land: "expand_mask ?T buffer = Inr land" "length land = length ?T"
      "length (land ! r) = length (?T ! r)"
      and lrc: "land ! r ! c \<longleftrightarrow> (\<exists>r' c'. r' < length ?T \<and> c' < length (?T ! r') \<and> ?T ! r' ! c' \<and>
                      in_kernel buffer (int r - int r') (int c - int c'))"
      using expand_mask_nth [OF buf shape] by blast
    have "?T ! r ! c" using iff eq by simp
    moreover have "in_kernel buffer (int r - int r) (int c - int c)"
      using in_kernel_centre [OF buf] by simp
    ultimately have l: "land ! r ! c" unfolding lrc using shape by blast
    have "mask_out land WQ ! r ! c = None" if "r < length WQ" "c < length (WQ ! r)" for WQ
      using that l land shape by (simp add: mask_out_nth)
    then show ?thesis using land(1) l by (simp add: make_land_mask_def)
  qed
  then show ?thesis using iff by simp
qed

theorem threshold_boundary_is_land_witness:
  "threshold_mask [[Some 90, Some 95], [None, Some 20]] 90 ! 0 ! 0 \<and>
   \<not> threshold_mask [[Some 90, Some 95], [None, Some 20]] 90 ! 0 ! 1 \<and>
   (\<exists>land. make_land_mask [[Some 90, Some 95], [None, Some 20]] 90 0 = Inr land \<and> land ! 0 ! 0)"
proof -
  have h: "0 < length [[Some (90::real), Some 95], [None, Some 20]]"
          "0 < length ([[Some (90::real), Some 95], [None, Some 20]] ! 0)"
          "1 < length ([[Some (90::real), Some 95], [None, Some 20]] ! 0)" by simp_all
  note a = threshold_boundary_is_land [OF h(1) h(2), of 90]
  note b = threshold_boundary_is_land [OF h(1) h(3), of 90]
  have 1: "threshold_mask [[Some 90, Some 95], [None, Some 20]] 90 ! 0 ! 0"
    using a by simp
  have 2: "\<not> threshold_mask [[Some 90, Some 95], [None, Some 20]] 90 ! 0 ! 1"
    using b by simp
  have 3: "\<exists>land. make_land_mask [[Some 90, Some 95], [None, Some 20]] 90 0 = Inr land \<and> land ! 0 ! 0"
    using a [THEN conjunct2] by auto
  show ?thesis using 1 2 3 by blast
qed

section \<open>Claims on the reprojection loop and the export\<close>

text \<open>
  C7. For a mask with at least one and fewer than \<open>2 ^ 46\<close> water pixels and a float64
  threshold, a date passes the validity test of 07b exactly when the float64 nearest to
  the percentage of water pixels that hold a value in its reprojected raster is at least
  \<open>min_valid_pix_thr\<close>, and the test of 07d exactly when the number of such pixels is at
  least \<open>pix_thr\<close>, the product of the number of water pixels and the threshold, rounded,
  divided by 100 and rounded again. The two counts are the numbers of pixels they are
  named after. A percentage that is at least the threshold passes both tests; when it
  equals the threshold, a raster with one valid water pixel less fails both. The dates
  07b saves and the flags \<open>valid_dates\<close> of 07d are those of the dates that pass.
\<close>

theorem validity_filter_float64:
  assumes water: "0 < n_water_pix land_mask" and size: "n_water_pix land_mask < 2 ^ 46"
    and thr: "is_f64 thr"
  shows "n_water_pix land_mask =
           card {(r, c). r < length land_mask \<and> c < length (land_mask ! r) \<and> \<not> land_mask ! r ! c} \<and>
         n_valid_water land_mask W =
           card {(r, c). r < length land_mask \<and> r < length W \<and>
                         c < length (land_mask ! r) \<and> c < length (W ! r) \<and>
                         \<not> land_mask ! r ! c \<and> W ! r ! c \<noteq> None} \<and>
         (enough_valid_07b land_mask (mask_out land_mask W) thr \<longleftrightarrow>
            thr \<le> f64_round (valid_percentage land_mask W)) \<and>
         (enough_valid_07d land_mask (mask_out land_mask W) thr \<longleftrightarrow>
            f64_round (f64_round (real (n_water_pix land_mask) * thr) / 100)
              \<le> real (n_valid_water land_mask W)) \<and>
         (thr \<le> valid_percentage land_mask W \<longrightarrow>
            enough_valid_07b land_mask (mask_out land_mask W) thr \<and>
            enough_valid_07d land_mask (mask_out land_mask W) thr) \<and>
         (valid_percentage land_mask W = thr \<longrightarrow>
            (\<forall>W'. n_valid_water land_mask W' + 1 = n_valid_water land_mask W \<longrightarrow>
               \<not> enough_valid_07b land_mask (mask_out land_mask W') thr \<and>
               \<not> enough_valid_07d land_mask (mask_out land_mask W') thr)) \<and>
         map fst (saved (loop_07b resample land_mask dx dy thr dates WQ_TS g)) =
           map ((!) dates)
             (filter (\<lambda>i. thr \<le> f64_round (valid_percentage land_mask
                               (ReprojectImage resample (WQ_TS ! i) (nan_array dx dy))))
                [0..<length dates]) \<and>
         valid_dates (loop_07d resample land_mask dx dy thr n WQ_TS g) =
           map (\<lambda>i. f64_round (f64_round (real (n_water_pix land_mask) * thr) / 100)
                      \<le> real (n_valid_water land_mask
                                 (ReprojectImage resample (WQ_TS ! i) (nan_array dx dy))))
             [0..<n]"
proof -
  note b = enough_07b_iff [OF water size] and d = enough_07d_iff [OF size]
  have above: "thr \<le> valid_percentage land_mask W \<longrightarrow>
            enough_valid_07b land_mask (mask_out land_mask W) thr \<and>
            enough_valid_07d land_mask (mask_out land_mask W) thr"
    using enough_07b_exact [OF water size thr] enough_07d_exact [OF water size] by blast
  have below: "valid_percentage land_mask W = thr \<longrightarrow>
            (\<forall>W'. n_valid_water land_mask W' + 1 = n_valid_water land_mask W \<longrightarrow>
               \<not> enough_valid_07b land_mask (mask_out land_mask W') thr \<and>
               \<not> enough_valid_07d land_mask (mask_out land_mask W') thr)"
    using enough_07b_one_below [OF water size thr] enough_07d_one_below [OF water size] by blast
  have l07b: "map fst (saved (loop_07b resample land_mask dx dy thr dates WQ_TS g)) =
           map ((!) dates)
             (filter (\<lambda>i. thr \<le> f64_round (valid_percentage land_mask
                               (ReprojectImage resample (WQ_TS ! i) (nan_array dx dy))))
                [0..<length dates])"
    by (simp add: loop_07b_saved fresh_result_def b comp_def)
  have l07d: "valid_dates (loop_07d resample land_mask dx dy thr n WQ_TS g) =
           map (\<lambda>i. f64_round (f64_round (real (n_water_pix land_mask) * thr) / 100)
                      \<le> real (n_valid_water land_mask
                                 (ReprojectImage resample (WQ_TS ! i) (nan_array dx dy))))
             [0..<n]"
    by (simp add: valid_dates_07d fresh_result_def d)
  show ?thesis
    using n_water_pix_card [of land_mask] n_valid_water_card [of land_mask W]
      b [of W] d [of W] above below l07b l07d by blast
qed

text \<open>An instance: four water pixels and the threshold 25. One valid water pixel passes
  both tests, none fails both.\<close>

theorem validity_filter_float64_witness:
  "0 < n_water_pix [[False, False, False, False, True]] \<and>
   n_water_pix [[False, False, False, False, True]] = 4 \<and>
   is_f64 25 \<and>
   valid_percentage [[False, False, False, False, True]] [[Some 1, None, None, None, Some 3]] = 25 \<and>
   enough_valid_07b [[False, False, False, False, True]]
     (mask_out [[False, False, False, False, True]] [[Some 1, None, None, None, Some 3]]) 25 \<and>
   enough_valid_07d [[False, False, False, False, True]]
     (mask_out [[False, False, False, False, True]] [[Some 1, None, None, None, Some 3]]) 25 \<and>
   \<not> enough_valid_07b [[False, False, False, False, True]]
     (mask_out [[False, False, False, False, True]] [[None, None, None, None, Some 3]]) 25 \<and>
   \<not> enough_valid_07d [[False, False, False, False, True]]
     (mask_out [[False, False, False, False, True]] [[None, None, None, None, Some 3]]) 25"
proof -
  have w4: "n_water_pix [[False, False, False, False, True]] = 4"
    by (simp add: n_water_pix_def)
  have w: "0 < n_water_pix [[False, False, False, False, True]]"
    and s: "n_water_pix [[False, False, False, False, True]] < 2 ^ 46"
    unfolding w4 by simp_all
  have f: "is_f64 25" using is_f64_int [of 25] by simp
  have p: "valid_percentage [[False, False, False, False, True]] [[Some 1, None, None, None, Some 3]] = 25"
    by (simp add: valid_percentage_def n_valid_water_def n_water_pix_def isnan_def)
  have q: "n_valid_water [[False, False, False, False, True]] [[None, None, None, None, Some 3]] + 1
         = n_valid_water [[False, False, False, False, True]] [[Some 1, None, None, None, Some 3]]"
    by (simp add: n_valid_water_def isnan_def)
  note t = validity_filter_float64 [OF w s f, of "[[Some 1, None, None, None, Some 3]]"]
  have "(25::real) \<le> valid_percentage [[False, False, False, False, True]] [[Some 1, None, None, None, Some 3]]"
    using p by simp
  with t p q show ?thesis using w w4 f by blast
qed

text \<open>
  The tests are not the comparison of the exact percentage with the threshold. With one of
  three water pixels valid the percentage is \<open>100 / 3\<close>, below the float64
  \<open>33.333333333333336 = 4691249611844267 / 2 ^ 47\<close>; at this threshold 07b computes
  \<open>100.0*1/3 = 33.333333333333336\<close> and 07d computes \<open>pix_thr = 1.0\<close>, and both keep the date.
\<close>

theorem validity_filter_exact_counterexample:
  "0 < n_water_pix [[False, False, False]] \<and>
   is_f64 (4691249611844267 / 140737488355328) \<and>
   valid_percentage [[False, False, False]] [[Some 1, None, None]] = 100 / 3 \<and>
   valid_percentage [[False, False, False]] [[Some 1, None, None]]
     < 4691249611844267 / 140737488355328 \<and>
   enough_valid_07b [[False, False, False]] (mask_out [[False, False, False]] [[Some 1, None, None]])
     (4691249611844267 / 140737488355328) \<and>
   enough_valid_07d [[False, False, False]] (mask_out [[False, False, False]] [[Some 1, None, None]])
     (4691249611844267 / 140737488355328)"
proof -
  let ?T = "4691249611844267 / 140737488355328 :: real"
  have w3: "n_water_pix [[False, False, False]] = 3" by (simp add: n_water_pix_def)
  have w: "0 < n_water_pix [[False, False, False]]"
    and s: "n_water_pix [[False, False, False]] < 2 ^ 46" unfolding w3 by simp_all
  have n1: "n_valid_water [[False, False, False]] [[Some 1, None, None]] = 1"
    by (simp add: n_valid_water_def isnan_def)
  have p: "valid_percentage [[False, False, False]] [[Some 1, None, None]] = 100 / 3"
    by (simp add: valid_percentage_def n1 w3)
  have f: "is_f64 ?T"
    unfolding is_f64_def
    by (rule exI [of _ 4691249611844267], rule exI [of _ "- 47"]) (simp add: pow2_def)
  have b: "enough_valid_07b [[False, False, False]] (mask_out [[False, False, False]] [[Some 1, None, None]]) ?T"
    unfolding enough_07b_iff [OF w s] p f64_hundred_thirds by simp
  have e: "real (3::nat) = 3" "real (1::nat) = 1" by simp_all
  have "f64_round (f64_round (real (3::nat) * ?T) / 100) = f64_round (100 / 100)"
    by (simp only: e f64_three_thirds)
  then have "f64_round (f64_round (real (3::nat) * ?T) / 100) \<le> real (1::nat)" by simp
  then have d: "enough_valid_07d [[False, False, False]] (mask_out [[False, False, False]] [[Some 1, None, None]]) ?T"
    unfolding enough_07d_iff [OF s] w3 n1 .
  have "(100 / 3 :: real) < ?T" by simp
  then show ?thesis using w f p b d by simp
qed

text \<open>
  C8. In every iteration of the loop, of 07b and of 07d, the warp is given an all-NaN
  destination buffer, whatever the buffer held before: the iteration's result is the masked
  warp of that date's raster into a fresh buffer. A destination pixel the warp does not
  touch is therefore NaN, and what the loops store for a date depends on no other date and
  not on the initial content of the buffer.
\<close>

theorem destination_reset_before_resample:
  "reproject_masked resample land_mask dx dy WQ g =
     (mask_out land_mask (ReprojectImage resample WQ (nan_array dx dy)),
      \<lparr>gdal_WQ_data = WQ, gdalgeo_WQ_data = ReprojectImage resample WQ (nan_array dx dy)\<rparr>) \<and>
   (\<forall>r c. r < dx \<longrightarrow> c < dy \<longrightarrow> resample WQ r c = None \<longrightarrow>
      ReprojectImage resample WQ (nan_array dx dy) ! r ! c = None) \<and>
   saved (loop_07b resample land_mask dx dy thr dates WQ_TS g) =
     map (\<lambda>i. (dates ! i, fresh_result resample land_mask dx dy (WQ_TS ! i)))
       (filter (\<lambda>i. enough_valid_07b land_mask (fresh_result resample land_mask dx dy (WQ_TS ! i)) thr)
          [0..<length dates]) \<and>
   (\<forall>i<n. WQ_res (loop_07d resample land_mask dx dy thr n WQ_TS g) ! i =
      (if enough_valid_07d land_mask (fresh_result resample land_mask dx dy (WQ_TS ! i)) thr
       then fresh_result resample land_mask dx dy (WQ_TS ! i) else nan_array dx dy))"
proof (intro conjI allI impI)
  show "reproject_masked resample land_mask dx dy WQ g =
     (mask_out land_mask (ReprojectImage resample WQ (nan_array dx dy)),
      \<lparr>gdal_WQ_data = WQ, gdalgeo_WQ_data = ReprojectImage resample WQ (nan_array dx dy)\<rparr>)"
    by (simp add: reproject_masked_eq fresh_result_def)
next
  fix r c assume "r < dx" "c < dy" "resample WQ r c = None"
  then show "ReprojectImage resample WQ (nan_array dx dy) ! r ! c = None"
    by (simp add: ReprojectImage_nth nan_array_shape nan_array_nth)
next
  show "saved (loop_07b resample land_mask dx dy thr dates WQ_TS g) =
     map (\<lambda>i. (dates ! i, fresh_result resample land_mask dx dy (WQ_TS ! i)))
       (filter (\<lambda>i. enough_valid_07b land_mask (fresh_result resample land_mask dx dy (WQ_TS ! i)) thr)
          [0..<length dates])"
    by (rule loop_07b_saved)
next
  fix i assume "i < n"
  then show "WQ_res (loop_07d resample land_mask dx dy thr n WQ_TS g) ! i =
      (if enough_valid_07d land_mask (fresh_result resample land_mask dx dy (WQ_TS ! i)) thr
       then fresh_result resample land_mask dx dy (WQ_TS ! i) else nan_array dx dy)"
    by (rule loop_07d_result(4))
qed

text \<open>An instance: a warp that only reaches column 0, and a destination buffer that
  holds 99 everywhere before the loop. Column 1 is NaN for both dates.\<close>

theorem destination_reset_before_resample_witness:
  "saved (loop_07b (\<lambda>src r c. if c = 0 then Some (src ! r ! c) else None) [[False, False]] 1 2 50
            [''1992-03-01'', ''1992-03-17''] [[[Some 5, Some 6]], [[Some 7, Some 8]]]
            \<lparr>gdal_WQ_data = [], gdalgeo_WQ_data = [[Some 99, Some 99]]\<rparr>)
     = [(''1992-03-01'', [[Some 5, None]]), (''1992-03-17'', [[Some 7, None]])] \<and>
   ReprojectImage (\<lambda>src r c. if c = 0 then Some (src ! r ! c) else None) [[Some 7, Some 8]]
       (nan_array 1 2) ! 0 ! 1 = None"
proof -
  note t = destination_reset_before_resample [of "\<lambda>src r c. if c = 0 then Some (src ! r ! c) else None" "[[False, False]]" 1 2
      "[[Some 7, Some 8]]" "\<lparr>gdal_WQ_data = [], gdalgeo_WQ_data = [[Some 99, Some 99]]\<rparr>" 50
      "[''1992-03-01'', ''1992-03-17'']" "[[[Some 5, Some 6]], [[Some 7, Some 8]]]" 0]
  note e = enough_example
  have 1: "saved (loop_07b (\<lambda>src r c. if c = 0 then Some (src ! r ! c) else None) [[False, False]] 1 2 50
            [''1992-03-01'', ''1992-03-17''] [[[Some 5, Some 6]], [[Some 7, Some 8]]]
            \<lparr>gdal_WQ_data = [], gdalgeo_WQ_data = [[Some 99, Some 99]]\<rparr>)
     = [(''1992-03-01'', [[Some 5, None]]), (''1992-03-17'', [[Some 7, None]])]"
    using t [THEN conjunct2, THEN conjunct2, THEN conjunct1]
    by (simp add: fresh_example e upt_conv_Cons)
  have 2: "ReprojectImage (\<lambda>src r c. if c = 0 then Some (src ! r ! c) else None) [[Some 7, Some 8]]
       (nan_array 1 2) ! 0 ! 1 = None"
    using t [THEN conjunct2, THEN conjunct1, rule_format, of 0 1] by simp
  show ?thesis using 1 2 by simp
qed

text \<open>
  C9. The save cell of 07d writes the netCDF file exactly when some date is flagged valid,
  and then writes that one file; with no valid date it leaves the state as it is. For
  the two cells in sequence: a file is written exactly when some date passes the validity
  test, and with no such date the arrays stay as allocated and the disk as it was.
\<close>

theorem archive_written_iff_retained:
  "(files (save_results valid f_name st) \<noteq> files st \<longleftrightarrow> True \<in> set valid) \<and>
   (True \<in> set valid \<longrightarrow>
      files (save_results valid f_name st) =
        files st @ [\<lparr>nc_name = f_name, nc_time = select valid (exp_LS_dates st),
                     nc_data = select valid (exp_WQ_res st)\<rparr>]) \<and>
   (True \<notin> set valid \<longrightarrow> save_results valid f_name st = st) \<and>
   (files (archive_export resample land_mask dx dy thr LS_dates WQ_TS g f_name files0) \<noteq> files0
      \<longleftrightarrow> (\<exists>i<length LS_dates.
             enough_valid_07d land_mask (fresh_result resample land_mask dx dy (WQ_TS ! i)) thr)) \<and>
   ((\<forall>i<length LS_dates.
        \<not> enough_valid_07d land_mask (fresh_result resample land_mask dx dy (WQ_TS ! i)) thr) \<longrightarrow>
      archive_export resample land_mask dx dy thr LS_dates WQ_TS g f_name files0 =
        \<lparr>exp_WQ_res = replicate (length LS_dates) (nan_array dx dy), exp_LS_dates = LS_dates,
         files = files0\<rparr>)"
proof -
  let ?s = "loop_07d resample land_mask dx dy thr (length LS_dates) WQ_TS g"
  let ?E = "\<lambda>i. enough_valid_07d land_mask (fresh_result resample land_mask dx dy (WQ_TS ! i)) thr"
  have v: "True \<in> set (valid_dates ?s) \<longleftrightarrow> (\<exists>i<length LS_dates. ?E i)"
    by (auto simp: valid_dates_07d)
  have ae: "archive_export resample land_mask dx dy thr LS_dates WQ_TS g f_name files0 =
     save_results (valid_dates ?s) f_name
        \<lparr>exp_WQ_res = WQ_res ?s, exp_LS_dates = LS_dates, files = files0\<rparr>"
    by (simp add: archive_export_def Let_def)
  have 4: "files (archive_export resample land_mask dx dy thr LS_dates WQ_TS g f_name files0) \<noteq> files0
      \<longleftrightarrow> (\<exists>i<length LS_dates. ?E i)"
    unfolding ae v [symmetric]
    using save_results_files [of "valid_dates ?s" f_name
        "\<lparr>exp_WQ_res = WQ_res ?s, exp_LS_dates = LS_dates, files = files0\<rparr>"] by simp
  have 5: "archive_export resample land_mask dx dy thr LS_dates WQ_TS g f_name files0 =
        \<lparr>exp_WQ_res = replicate (length LS_dates) (nan_array dx dy), exp_LS_dates = LS_dates,
         files = files0\<rparr>" if none: "\<forall>i<length LS_dates. \<not> ?E i"
  proof -
    have "True \<notin> set (valid_dates ?s)" using none v by blast
    then have "archive_export resample land_mask dx dy thr LS_dates WQ_TS g f_name files0 =
       \<lparr>exp_WQ_res = WQ_res ?s, exp_LS_dates = LS_dates, files = files0\<rparr>"
      unfolding ae by (rule save_results_none)
    moreover have "WQ_res ?s = replicate (length LS_dates) (nan_array dx dy)"
      using none by (intro nth_equalityI) (simp_all add: loop_07d_result)
    ultimately show ?thesis by simp
  qed
  show ?thesis
    using save_results_files [of valid f_name st] save_results_written [of valid f_name st]
      save_results_none [of valid f_name st] 4 5 by blast
qed

theorem archive_written_iff_retained_witness:
  "save_results [False, False] ''WQ_Lake.nc''
      \<lparr>exp_WQ_res = [[[None]], [[None]]], exp_LS_dates = [''2013-01-05'', ''2013-01-21''], files = []\<rparr>
    = \<lparr>exp_WQ_res = [[[None]], [[None]]], exp_LS_dates = [''2013-01-05'', ''2013-01-21''], files = []\<rparr> \<and>
   files (save_results [False, True] ''WQ_Lake.nc''
      \<lparr>exp_WQ_res = [[[None]], [[Some 4]]], exp_LS_dates = [''2013-01-05'', ''2013-01-21''], files = []\<rparr>)
    = [\<lparr>nc_name = ''WQ_Lake.nc'', nc_time = [''2013-01-21''], nc_data = [[[Some 4]]]\<rparr>]"
proof -
  have 1: "True \<notin> set [False, False]" and 2: "True \<in> set [False, True]" by simp_all
  show ?thesis
    using archive_written_iff_retained [of "[False, False]" "''WQ_Lake.nc''"
        "\<lparr>exp_WQ_res = [[[None]], [[None]]], exp_LS_dates = [''2013-01-05'', ''2013-01-21''], files = []\<rparr>",
        THEN conjunct2, THEN conjunct2, THEN conjunct1]
      archive_written_iff_retained [of "[False, True]" "''WQ_Lake.nc''"
        "\<lparr>exp_WQ_res = [[[None]], [[Some 4]]], exp_LS_dates = [''2013-01-05'', ''2013-01-21''], files = []\<rparr>",
        THEN conjunct2, THEN conjunct1]
      1 2
    by (simp add: select_def)
qed

end
